theory Spec2Isabelle
  imports Complex_Main
begin

section \<open>Tensors\<close>

text \<open>
  A dense tensor is its shape together with its entries in row-major order, over the
  reals (the idealisation of the floating-point entries). A well-formed tensor has as
  many entries as the product of its shape.
\<close>

record tensor =
  shape :: "nat list"
  data :: "real list"

definition wf_tensor :: "tensor \<Rightarrow> bool" where
  "wf_tensor t = (length (data t) = prod_list (shape t))"

definition rank :: "tensor \<Rightarrow> nat" where
  "rank t = length (shape t)"

definition zeros :: "nat list \<Rightarrow> tensor" where
  "zeros s = \<lparr>shape = s, data = replicate (prod_list s) 0\<rparr>"

text \<open>Elementwise application of a scalar function (\<open>torch.exp\<close>, \<open>1 - b\<close>, ...).\<close>

definition tmap :: "(real \<Rightarrow> real) \<Rightarrow> tensor \<Rightarrow> tensor" where
  "tmap f t = \<lparr>shape = shape t, data = map f (data t)\<rparr>"

text \<open>
  The shape of a broadcast: the two shapes are aligned at their last axes; where one of
  them has size one, or no axis, the other size is taken.
\<close>

fun bshape_rev :: "nat list \<Rightarrow> nat list \<Rightarrow> nat list" where
  "bshape_rev [] ys = ys"
| "bshape_rev (x # xs) [] = x # xs"
| "bshape_rev (x # xs) (y # ys) = (if x = 1 then y else x) # bshape_rev xs ys"

definition bshape :: "nat list \<Rightarrow> nat list \<Rightarrow> nat list" where
  "bshape s1 s2 = rev (bshape_rev (rev s1) (rev s2))"

text \<open>
  Elementwise binary operation with broadcasting. An operand is repeated along the
  leading axes of the result, which is what broadcasting does when its shape (up to
  leading axes of size one) is a suffix of the shape of the result: the only broadcasts
  of this library are a mask of shape \<open>(1, dim)\<close> or \<open>(dim)\<close>, or a scalar, against an
  input whose last axis has size \<open>dim\<close>. For other pairs of shapes the tensor engine
  raises or broadcasts an inner axis; the layers are not used on them.
\<close>

definition entry :: "tensor \<Rightarrow> nat \<Rightarrow> real" where
  "entry t i = data t ! (i mod length (data t))"

definition bop :: "(real \<Rightarrow> real \<Rightarrow> real) \<Rightarrow> tensor \<Rightarrow> tensor \<Rightarrow> tensor" where
  "bop f a b =
     (let r = bshape (shape a) (shape b) in
      \<lparr>shape = r, data = map (\<lambda>i. f (entry a i) (entry b i)) [0..<prod_list r]\<rparr>)"

abbreviation tmul :: "tensor \<Rightarrow> tensor \<Rightarrow> tensor" where
  "tmul \<equiv> bop (*)"

abbreviation tadd :: "tensor \<Rightarrow> tensor \<Rightarrow> tensor" where
  "tadd \<equiv> bop (+)"



text \<open>\<open>1 - b\<close> for a tensor \<open>b\<close>.\<close>

definition one_minus :: "tensor \<Rightarrow> tensor" where
  "one_minus b = tmap (\<lambda>v. 1 - v) b"


text \<open>
  \<open>torch.sum(t, dim=-1)\<close>: the last axis, of size \<open>k\<close>, is summed away; entry \<open>i\<close> of
  the result is the sum of the \<open>i\<close>-th block of \<open>k\<close> consecutive entries. A tensor with no
  axis is returned as it is.
\<close>

definition sum_last :: "tensor \<Rightarrow> tensor" where
  "sum_last t =
     (if shape t = [] then t
      else
        let k = last (shape t); s = butlast (shape t) in
        \<lparr>shape = s,
         data = map (\<lambda>i. sum_list (take k (drop (i * k) (data t)))) [0..<prod_list s]\<rparr>)"

datatype error =
    Exception
  | RuntimeError
  | AttributeError
  | IndexError
  | ValueError
  | ZeroDivisionError

text \<open>
  \<open>t.reshape(b, -1)\<close>: the second size is inferred as \<open>numel / b\<close>. The tensor
  engine refuses the inference when the given sizes multiply to zero (the missing size
  is then ambiguous), and when \<open>b\<close> does not divide the number of entries.
\<close>

definition reshape_rows :: "nat \<Rightarrow> tensor \<Rightarrow> error + tensor" where
  "reshape_rows b t =
     (if b = 0 then Inl RuntimeError
      else if length (data t) mod b \<noteq> 0 then Inl RuntimeError
      else Inr \<lparr>shape = [b, length (data t) div b], data = data t\<rparr>)"

section \<open>The range of the floating-point numbers\<close>

text \<open>
  The entries of a tensor are \<open>float32\<close> numbers in the code and real numbers here, and
  rounding is not modelled. A result of magnitude at most \<open>2\<^sup>1\<^sup>2\<^sup>7\<close> is below the largest
  finite \<open>float32\<close> number, so an operation whose exact result is in this range does not
  overflow to \<open>inf\<close> (from where \<open>0 * inf\<close> and \<open>inf - inf\<close> give \<open>nan\<close>). The exponential of
  an argument between \<open>-87\<close> and \<open>88\<close> is a normal \<open>float32\<close> number: it neither overflows
  nor underflows. \<open>torch.exp\<close> returns exactly zero for an argument of \<open>-104\<close> and below,
  where the exponential is less than half the smallest positive \<open>float32\<close> number; this is
  kept in \<open>torch_exp\<close>, which stands for \<open>torch.exp\<close> where a zero result matters.
\<close>

definition f32_max :: real where
  "f32_max = 2 ^ 127"

definition exp_range :: "real \<Rightarrow> bool" where
  "exp_range v \<longleftrightarrow> - 87 \<le> v \<and> v \<le> 88"

definition torch_exp :: "real \<Rightarrow> real" where
  "torch_exp v = (if v \<le> - 104 then 0 else exp v)"



section \<open>Masks\<close>

text \<open>
  \<open>generate_mask\<close>: a zero tensor of shape \<open>(1, dim)\<close> whose entries \<open>[0, i]\<close> are set
  to one, for the even \<open>i\<close>, by a loop over \<open>range(dim)\<close>.
\<close>

definition generate_mask_step :: "nat \<Rightarrow> tensor \<Rightarrow> tensor" where
  "generate_mask_step i msk =
     (if i mod 2 = 0 then msk\<lparr>data := (data msk)[i := 1]\<rparr> else msk)"

definition generate_mask :: "nat \<Rightarrow> tensor" where
  "generate_mask d = fold generate_mask_step [0..<d] (zeros [1, d])"

section \<open>Coupling layers\<close>


record real_nvp_element =
  nvp_mask :: tensor
  f_log_s :: "tensor \<Rightarrow> tensor"
  f_t :: "tensor \<Rightarrow> tensor"
  nvp_eps :: real
  nvp_clip :: "real option"

text \<open>The constructor: the default mask is generated when none is given.\<close>

definition real_nvp_element_init ::
  "nat \<Rightarrow> (tensor \<Rightarrow> tensor) \<Rightarrow> (tensor \<Rightarrow> tensor) \<Rightarrow> tensor option \<Rightarrow> real \<Rightarrow> real option
     \<Rightarrow> real_nvp_element" where
  "real_nvp_element_init d fls ft msk e c =
     \<lparr>nvp_mask = (case msk of None \<Rightarrow> generate_mask d | Some m \<Rightarrow> m),
      f_log_s = fls, f_t = ft, nvp_eps = e, nvp_clip = c\<rparr>"




record combined_real_nvp =
  cnvp_mask :: tensor
  nvp_1 :: real_nvp_element
  nvp_2 :: real_nvp_element

text \<open>
  The constructor of the combined layer passes no \<open>eps\<close>, so both elements get the
  default \<open>1e-8\<close>.
\<close>

definition combined_real_nvp_init ::
  "nat \<Rightarrow> (tensor \<Rightarrow> tensor) \<Rightarrow> (tensor \<Rightarrow> tensor) \<Rightarrow> tensor option \<Rightarrow> real option
     \<Rightarrow> combined_real_nvp" where
  "combined_real_nvp_init d fls ft msk c =
     (let m = (case msk of None \<Rightarrow> generate_mask d | Some m \<Rightarrow> m) in
      \<lparr>cnvp_mask = m,
       nvp_1 = real_nvp_element_init d fls ft (Some m) (1 / 10 ^ 8) c,
       nvp_2 = real_nvp_element_init d fls ft (Some (one_minus m)) (1 / 10 ^ 8) c\<rparr>)"







section \<open>Base distributions\<close>

text \<open>
  \<open>NormalDistribution.logp\<close>: the pointwise values \<open>- x\<^sup>2\<close> are computed first, then
  the rank of the input selects the reduction or the exception.
\<close>

definition normal_log_prob :: "tensor \<Rightarrow> tensor" where
  "normal_log_prob x = tmap (\<lambda>v. -1 * v\<^sup>2) x"

definition logp_of :: "tensor \<Rightarrow> tensor \<Rightarrow> error + tensor" where
  "logp_of logps x =
     (if length (shape x) = 1 then Inl Exception
      else if length (shape x) = 2 then Inr (sum_last logps)
      else if length (shape x) = 3 then
        (case reshape_rows (shape x ! 0) logps of
           Inl e \<Rightarrow> Inl e | Inr r \<Rightarrow> Inr (sum_last r))
      else if length (shape x) = 4 then
        (case reshape_rows (shape x ! 0) logps of
           Inl e \<Rightarrow> Inl e | Inr r \<Rightarrow> Inr (sum_last r))
      else Inl Exception)"

definition normal_logp :: "tensor \<Rightarrow> error + tensor" where
  "normal_logp x = logp_of (normal_log_prob x) x"

text \<open>
  \<open>LaplaceDistribution\<close> with location \<open>mu\<close> and scale \<open>beta\<close>; the pointwise
  log-density of the tensor engine's Laplace distribution is
  \<open>- log (2 beta) - |x - mu| / beta\<close>.
\<close>

record laplace =
  lap_mu :: real
  lap_beta :: real

definition laplace_log_prob :: "laplace \<Rightarrow> tensor \<Rightarrow> tensor" where
  "laplace_log_prob d x = tmap (\<lambda>v. - ln (2 * lap_beta d) - \<bar>v - lap_mu d\<bar> / lap_beta d) x"

definition laplace_logp :: "laplace \<Rightarrow> tensor \<Rightarrow> error + tensor" where
  "laplace_logp d x = logp_of (laplace_log_prob d x) x"

text \<open>
  When it returns, \<open>logp\<close> returns one number per sample: the sum of the pointwise
  values of that sample, which are consecutive in row-major order.
\<close>

definition per_sample_sums :: "nat \<Rightarrow> nat \<Rightarrow> real list \<Rightarrow> tensor" where
  "per_sample_sums b k xs =
     \<lparr>shape = [b], data = map (\<lambda>i. sum_list (take k (drop (i * k) xs))) [0..<b]\<rparr>"

section \<open>Feature split\<close>

text \<open>
  A linear map \<open>nn.Linear\<close> with weight of shape \<open>(out, in)\<close> and bias of shape
  \<open>(out)\<close>. It applies to an input of rank at least one whose last axis has size
  \<open>in\<close>, and raises otherwise.
\<close>

record linear =
  lin_in :: nat
  lin_out :: nat
  lin_weight :: "real list"
  lin_bias :: "real list"

definition linear_forward :: "linear \<Rightarrow> tensor \<Rightarrow> error + tensor" where
  "linear_forward l y =
     (if shape y = [] \<or> last (shape y) \<noteq> lin_in l then Inl RuntimeError
      else Inr \<lparr>shape = butlast (shape y) @ [lin_out l],
                data = concat (map (\<lambda>r. map (\<lambda>oc.
                    (\<Sum>j \<leftarrow> [0..<lin_in l]. data y ! (r * lin_in l + j) * lin_weight l ! (oc * lin_in l + j))
                    + lin_bias l ! oc) [0..<lin_out l])
                  [0..<prod_list (butlast (shape y))])\<rparr>)"

text \<open>
  A convolution with kernel size 3 and padding 1 along one axis (\<open>nn.Conv1d\<close>) or
  two axes (\<open>nn.Conv2d\<close>): weight of shape \<open>(out, in, 3)\<close> or \<open>(out, in, 3, 3)\<close>,
  bias of shape \<open>(out)\<close>. The input is a batch \<open>(B, in, W)\<close> or \<open>(B, in, H, W)\<close>, or a
  single sample without the batch axis, and is read as zero outside its range. The
  tensor engine raises when the number of channels of the input is not \<open>in\<close>, when the
  layer has no output channel, and when a spatial axis is empty (the padded input is
  then shorter than the kernel); for an input with no channel it returns an empty
  tensor with no channel.
\<close>

record conv =
  conv_in :: nat
  conv_out :: nat
  conv_weight :: "real list"
  conv_bias :: "real list"

definition conv1d_forward :: "conv \<Rightarrow> tensor \<Rightarrow> error + tensor" where
  "conv1d_forward cv y =
     (let r = length (shape y) in
      if r \<noteq> 2 \<and> r \<noteq> 3 then Inl RuntimeError
      else
        let lead = take (r - 2) (shape y); B = prod_list lead;
            C = shape y ! (r - 2); W = shape y ! (r - 1); Co = conv_out cv in
        if C \<noteq> conv_in cv \<or> Co = 0 \<or> W = 0 then Inl RuntimeError
        else if C = 0 then Inr \<lparr>shape = lead @ [0, W], data = []\<rparr>
        else
          Inr \<lparr>shape = lead @ [Co, W],
               data = concat (map (\<lambda>b. concat (map (\<lambda>oc. map (\<lambda>w.
                   (\<Sum>c \<leftarrow> [0..<C]. \<Sum>k \<leftarrow> [0..<3].
                      conv_weight cv ! ((oc * C + c) * 3 + k) *
                      (if 1 \<le> w + k \<and> w + k \<le> W then data y ! ((b * C + c) * W + (w + k - 1)) else 0))
                   + conv_bias cv ! oc) [0..<W]) [0..<Co])) [0..<B])\<rparr>)"

definition conv2d_forward :: "conv \<Rightarrow> tensor \<Rightarrow> error + tensor" where
  "conv2d_forward cv y =
     (let r = length (shape y) in
      if r \<noteq> 3 \<and> r \<noteq> 4 then Inl RuntimeError
      else
        let lead = take (r - 3) (shape y); B = prod_list lead;
            C = shape y ! (r - 3); H = shape y ! (r - 2); W = shape y ! (r - 1);
            Co = conv_out cv in
        if C \<noteq> conv_in cv \<or> Co = 0 \<or> H = 0 \<or> W = 0 then Inl RuntimeError
        else if C = 0 then Inr \<lparr>shape = lead @ [0, H, W], data = []\<rparr>
        else
          Inr \<lparr>shape = lead @ [Co, H, W],
               data = concat (map (\<lambda>b. concat (map (\<lambda>oc. concat (map (\<lambda>h. map (\<lambda>w.
                   (\<Sum>c \<leftarrow> [0..<C]. \<Sum>kh \<leftarrow> [0..<3]. \<Sum>kw \<leftarrow> [0..<3].
                      conv_weight cv ! (((oc * C + c) * 3 + kh) * 3 + kw) *
                      (if 1 \<le> h + kh \<and> h + kh \<le> H \<and> 1 \<le> w + kw \<and> w + kw \<le> W
                       then data y ! (((b * C + c) * H + (h + kh - 1)) * W + (w + kw - 1)) else 0))
                   + conv_bias cv ! oc) [0..<W]) [0..<H])) [0..<Co])) [0..<B])\<rparr>)"

text \<open>
  The three sub-estimators. Each holds a mean map and a log-variance map from
  \<open>feature_y = feature_out\<close> to \<open>feature_z = feature_in - feature_out\<close> features, and
  the default \<open>eps = 1e-8\<close>. The constructors set every weight and bias to zero; the
  tensor engine refuses a negative number of features.
\<close>

datatype mu_var_module =
    MuVarVector linear linear
  | MuVar1d conv conv
  | MuVar2d conv conv

definition zero_linear :: "nat \<Rightarrow> nat \<Rightarrow> linear" where
  "zero_linear i oc =
     \<lparr>lin_in = i, lin_out = oc, lin_weight = replicate (oc * i) 0, lin_bias = replicate oc 0\<rparr>"

definition zero_conv :: "nat \<Rightarrow> nat \<Rightarrow> nat \<Rightarrow> conv" where
  "zero_conv i oc k =
     \<lparr>conv_in = i, conv_out = oc, conv_weight = replicate (oc * i * k) 0,
      conv_bias = replicate oc 0\<rparr>"

definition MuVarVector_init :: "int \<Rightarrow> int \<Rightarrow> error + mu_var_module" where
  "MuVarVector_init feature_in feature_out =
     (let feature_y = feature_out; feature_z = feature_in - feature_out in
      if feature_y < 0 \<or> feature_z < 0 then Inl RuntimeError
      else Inr (MuVarVector (zero_linear (nat feature_y) (nat feature_z))
                            (zero_linear (nat feature_y) (nat feature_z))))"

definition MuVar1d_init :: "int \<Rightarrow> int \<Rightarrow> error + mu_var_module" where
  "MuVar1d_init feature_in feature_out =
     (let feature_y = feature_out; feature_z = feature_in - feature_out in
      if feature_y < 0 \<or> feature_z < 0 then Inl RuntimeError
      else Inr (MuVar1d (zero_conv (nat feature_y) (nat feature_z) 3)
                        (zero_conv (nat feature_y) (nat feature_z) 3)))"

definition MuVar2d_init :: "int \<Rightarrow> int \<Rightarrow> error + mu_var_module" where
  "MuVar2d_init feature_in feature_out =
     (let feature_y = feature_out; feature_z = feature_in - feature_out in
      if feature_y < 0 \<or> feature_z < 0 then Inl RuntimeError
      else Inr (MuVar2d (zero_conv (nat feature_y) (nat feature_z) 9)
                        (zero_conv (nat feature_y) (nat feature_z) 9)))"

definition muvar_eps :: real where
  "muvar_eps = 1 / 10 ^ 8"

definition exp_var :: "tensor \<Rightarrow> tensor" where
  "exp_var log_var = tmap (\<lambda>v. muvar_eps + exp v) log_var"

text \<open>
  The forward pass of a sub-estimator returns \<open>(mu, var, log_det)\<close>. The vector
  estimator sums the logarithms over the last axis; the convolutional ones reshape to
  \<open>(batch, -1)\<close> first.
\<close>

definition mu_var_forward :: "mu_var_module \<Rightarrow> tensor \<Rightarrow> error + (tensor \<times> tensor \<times> tensor)" where
  "mu_var_forward M y =
     (case M of
        MuVarVector linear_mu linear_log_var \<Rightarrow>
          (case linear_forward linear_mu y of Inl e \<Rightarrow> Inl e | Inr mu \<Rightarrow>
           case linear_forward linear_log_var y of Inl e \<Rightarrow> Inl e | Inr lv \<Rightarrow>
             let var = exp_var lv in
             Inr (mu, var, tmap (\<lambda>v. -1 * v) (sum_last (tmap ln var))))
      | MuVar1d conv_mu conv_log_var \<Rightarrow>
          (case conv1d_forward conv_mu y of Inl e \<Rightarrow> Inl e | Inr mu \<Rightarrow>
           case conv1d_forward conv_log_var y of Inl e \<Rightarrow> Inl e | Inr lv \<Rightarrow>
             let var = exp_var lv in
             case reshape_rows (shape var ! 0) (tmap ln var) of Inl e \<Rightarrow> Inl e | Inr r \<Rightarrow>
               Inr (mu, var, tmap (\<lambda>v. -1 * v) (sum_last r)))
      | MuVar2d conv_mu conv_log_var \<Rightarrow>
          (case conv2d_forward conv_mu y of Inl e \<Rightarrow> Inl e | Inr mu \<Rightarrow>
           case conv2d_forward conv_log_var y of Inl e \<Rightarrow> Inl e | Inr lv \<Rightarrow>
             let var = exp_var lv in
             case reshape_rows (shape var ! 0) (tmap ln var) of Inl e \<Rightarrow> Inl e | Inr r \<Rightarrow>
               Inr (mu, var, tmap (\<lambda>v. -1 * v) (sum_last r))))"

text \<open>
  \<open>MuVar\<close>: the flag \<open>initialized\<close>, the two feature counts, and the attribute
  \<open>mu_var\<close>, which does not exist (\<open>None\<close>) until \<open>_initialize\<close> binds it. An exception
  leaves the assignments made before it in place, so every operation returns the state
  together with its result.
\<close>

record MuVar =
  initialized :: bool
  feature_in :: int
  feature_out :: int
  mu_var :: "mu_var_module option"

definition MuVar_init :: "int \<Rightarrow> int \<Rightarrow> MuVar" where
  "MuVar_init fi fo = \<lparr>initialized = False, feature_in = fi, feature_out = fo, mu_var = None\<rparr>"

text \<open>
  \<open>_initialize\<close>: unpacking \<open>batch, *shape = y.shape\<close> raises on a shape with no axis,
  and \<open>shape[0]\<close> raises when no axis follows the batch axis; both come before the flag
  is set. After the flag is set, the rank selects the sub-estimator, and no branch is
  taken for more than three axes after the batch axis.
\<close>

definition bind_mu_var :: "MuVar \<Rightarrow> error + mu_var_module \<Rightarrow> error option \<times> MuVar" where
  "bind_mu_var st r = (case r of Inl e \<Rightarrow> (Some e, st) | Inr M \<Rightarrow> (None, st\<lparr>mu_var := Some M\<rparr>))"

definition MuVar_initialize :: "MuVar \<Rightarrow> tensor \<Rightarrow> error option \<times> MuVar" where
  "MuVar_initialize st y =
     (case shape y of
        [] \<Rightarrow> (Some ValueError, st)
      | batch # shp \<Rightarrow>
          if shp = [] then (Some IndexError, st)
          else
            let st = st\<lparr>initialized := True\<rparr> in
            if length shp = 1 then bind_mu_var st (MuVarVector_init (feature_in st) (feature_out st))
            else if length shp = 2 then bind_mu_var st (MuVar1d_init (feature_in st) (feature_out st))
            else if length shp = 3 then bind_mu_var st (MuVar2d_init (feature_in st) (feature_out st))
            else (None, st))"

definition call_mu_var :: "MuVar \<Rightarrow> tensor \<Rightarrow> error + (tensor \<times> tensor \<times> tensor)" where
  "call_mu_var st y = (case mu_var st of None \<Rightarrow> Inl AttributeError | Some M \<Rightarrow> mu_var_forward M y)"

definition MuVar_forward :: "MuVar \<Rightarrow> tensor \<Rightarrow> (error + (tensor \<times> tensor \<times> tensor)) \<times> MuVar" where
  "MuVar_forward st y =
     (if \<not> initialized st then
        (case MuVar_initialize st y of
           (Some e, st') \<Rightarrow> (Inl e, st')
         | (None, st') \<Rightarrow> (call_mu_var st' y, st'))
      else (call_mu_var st y, st))"

section \<open>The log-determinant estimator of the residual block\<close>

text \<open>
  \<open>iResNet.logdet\<close>. The accumulator \<open>logdet\<close> starts as the Python number \<open>0\<close> and
  becomes a tensor with the first \<open>+=\<close>. The automatic differentiation of \<open>g\<close> at \<open>x\<close>
  is a parameter: \<open>vjp_g w\<close> stands for \<open>vjp(g, x, w)[0]\<close>. The random draws are a
  parameter as well: \<open>probe i\<close> is the vector \<open>v\<close> drawn in repeat \<open>i\<close>. The module is put
  in evaluation mode at the start and back in training mode before returning.
\<close>

datatype pyval = PyNum real | PyTensor tensor

fun py_add :: "pyval \<Rightarrow> tensor \<Rightarrow> pyval" where
  "py_add (PyNum a) t = PyTensor (tmap (\<lambda>u. a + u) t)"
| "py_add (PyTensor s) t = PyTensor (tadd s t)"

definition logdet_term :: "nat \<Rightarrow> tensor \<Rightarrow> tensor \<Rightarrow> tensor" where
  "logdet_term k w v =
     tmap (\<lambda>u. u / real k) (tmap (\<lambda>u. (- 1) ^ (k + 1) * u) (sum_last (tmul w v)))"

definition logdet_inner_step ::
  "(tensor \<Rightarrow> tensor) \<Rightarrow> tensor \<Rightarrow> nat \<Rightarrow> tensor \<times> pyval \<Rightarrow> tensor \<times> pyval" where
  "logdet_inner_step vjp_g v k st =
     (let w = vjp_g (fst st) in (w, py_add (snd st) (logdet_term k w v)))"

definition logdet_outer_step ::
  "(tensor \<Rightarrow> tensor) \<Rightarrow> (nat \<Rightarrow> tensor) \<Rightarrow> int \<Rightarrow> nat \<Rightarrow> pyval \<Rightarrow> pyval" where
  "logdet_outer_step vjp_g probe num_n i logdet =
     (let v = probe i; w = v in
      snd (fold (logdet_inner_step vjp_g v) [1..<nat num_n] (w, logdet)))"

record iResNet_mode =
  training :: bool

definition iResNet_logdet ::
  "(tensor \<Rightarrow> tensor) \<Rightarrow> (nat \<Rightarrow> tensor) \<Rightarrow> int \<Rightarrow> int \<Rightarrow> iResNet_mode
     \<Rightarrow> (error + pyval) \<times> iResNet_mode" where
  "iResNet_logdet vjp_g probe num_iter num_n md =
     (let md = md\<lparr>training := False\<rparr>;
          logdet = fold (logdet_outer_step vjp_g probe num_n) [0..<nat num_iter] (PyNum 0)
      in case logdet of
           PyNum a \<Rightarrow>
             if num_iter = 0 then (Inl ZeroDivisionError, md)
             else (Inr (PyNum (a / real_of_int num_iter)), md\<lparr>training := True\<rparr>)
         | PyTensor t \<Rightarrow>
             (Inr (PyTensor (tmap (\<lambda>u. u / real_of_int num_iter) t)), md\<lparr>training := True\<rparr>))"

text \<open>
  The estimator as the specification words it: for every probe, the sum over
  \<open>k = 1, \<dots>, num_n - 1\<close> of \<open>(-1)\<^sup>k\<^sup>+\<^sup>1 / k\<close> times the sum over the last axis of \<open>w * v\<close>,
  where \<open>w\<close> is \<open>v\<close> pushed \<open>k\<close> times through the vector-Jacobian product; the total
  over the probes is divided by \<open>num_iter\<close>. This is entry \<open>j\<close> of the result.
\<close>

definition logdet_spec :: "(tensor \<Rightarrow> tensor) \<Rightarrow> (nat \<Rightarrow> tensor) \<Rightarrow> int \<Rightarrow> int \<Rightarrow> nat \<Rightarrow> real" where
  "logdet_spec vjp_g probe num_iter num_n j =
     (\<Sum>i\<leftarrow>[0..<nat num_iter]. \<Sum>k\<leftarrow>[1..<nat num_n].
        (- 1) ^ (k + 1) / real k * data (sum_last (tmul ((vjp_g ^^ k) (probe i)) (probe i))) ! j)
     / real_of_int num_iter"

text \<open>
  Two predicates for the proofs: a tensor of shape \<open>S\<close> whose entries are given by \<open>f\<close>,
  and an accumulator that is either a number equal to every \<open>f j\<close> or such a tensor.
\<close>

definition tens_is :: "nat list \<Rightarrow> (nat \<Rightarrow> real) \<Rightarrow> tensor \<Rightarrow> bool" where
  "tens_is S f t \<longleftrightarrow>
     shape t = S \<and> length (data t) = prod_list S \<and> (\<forall>j<prod_list S. data t ! j = f j)"

definition acc_is :: "nat list \<Rightarrow> (nat \<Rightarrow> real) \<Rightarrow> pyval \<Rightarrow> bool" where
  "acc_is S f acc \<longleftrightarrow>
     (case acc of PyNum a \<Rightarrow> \<forall>j<prod_list S. f j = a | PyTensor t \<Rightarrow> tens_is S f t)"

definition is_tensor :: "pyval \<Rightarrow> bool" where
  "is_tensor acc = (case acc of PyNum a \<Rightarrow> False | PyTensor t \<Rightarrow> True)"











section \<open>Square matrices and the PLU parameterisation\<close>

text \<open>
  A \<open>dim \<times> dim\<close> array is represented by its entry function together with \<open>dim\<close>;
  only the entries with both indices below \<open>dim\<close> are ever read.
\<close>

type_synonym mat = "nat \<Rightarrow> nat \<Rightarrow> real"

definition matmul :: "nat \<Rightarrow> mat \<Rightarrow> mat \<Rightarrow> mat" where
  "matmul n A B = (\<lambda>i j. \<Sum>k<n. A i k * B k j)"

definition mat_one :: mat where
  "mat_one = (\<lambda>i j. if i = j then 1 else 0)"

text \<open>\<open>torch.tril(A, diagonal=-1)\<close>, \<open>torch.triu(A, diagonal=1)\<close> and \<open>torch.diag(v)\<close>.\<close>

definition tril_strict :: "mat \<Rightarrow> mat" where
  "tril_strict A = (\<lambda>i j. if j < i then A i j else 0)"

definition triu_strict :: "mat \<Rightarrow> mat" where
  "triu_strict A = (\<lambda>i j. if i < j then A i j else 0)"

definition diag_mat :: "(nat \<Rightarrow> real) \<Rightarrow> mat" where
  "diag_mat v = (\<lambda>i j. if i = j then v i else 0)"

text \<open>
  \<open>PLUMatrix\<close>: the fixed matrix \<open>P\<close> returned by the LU factorisation of the sampled
  matrix, and the trainable \<open>_L\<close>, \<open>_U\<close> and \<open>log_s\<close>.
\<close>

record PLUMatrix =
  plu_dim :: nat
  positive_s :: bool
  plu_eps :: real
  plu_P :: mat
  plu_L_raw :: mat
  plu_U_raw :: mat
  plu_log_s :: "nat \<Rightarrow> real"

definition PLU_L :: "PLUMatrix \<Rightarrow> mat" where
  "PLU_L p = (let l = tril_strict (plu_L_raw p) in (\<lambda>i j. l i j + mat_one i j))"

definition PLU_U :: "PLUMatrix \<Rightarrow> mat" where
  "PLU_U p = triu_strict (plu_U_raw p)"

definition PLU_s :: "PLUMatrix \<Rightarrow> mat" where
  "PLU_s p =
     (if positive_s p then diag_mat (\<lambda>i. torch_exp (plu_log_s p i)) else diag_mat (plu_log_s p))"

definition PLU_W :: "PLUMatrix \<Rightarrow> mat" where
  "PLU_W p =
     matmul (plu_dim p) (matmul (plu_dim p) (plu_P p) (PLU_L p)) (\<lambda>i j. PLU_U p i j + PLU_s p i j)"

definition PLU_logdet :: "PLUMatrix \<Rightarrow> real" where
  "PLU_logdet p =
     (if positive_s p then (\<Sum>i<plu_dim p. plu_log_s p i)
      else (\<Sum>i<plu_dim p. ln (\<bar>plu_log_s p i\<bar> + plu_eps p)))"

text \<open>
  The parameters for which the computation of \<open>W()\<close> and of \<open>logdet()\<close> stays in the range
  of the floating-point numbers: with \<open>positive_s\<close> every \<open>log_s\<close> is in the safe range of
  \<open>exp\<close>, and the sums of the two matrix products are bounded termwise; for \<open>logdet()\<close>,
  the sum is bounded termwise and, without \<open>positive_s\<close>, \<open>eps\<close> is positive, so that no
  logarithm of zero is taken.
\<close>

definition PLU_in_range :: "PLUMatrix \<Rightarrow> bool" where
  "PLU_in_range p \<longleftrightarrow>
     (let n = plu_dim p;
          PL = matmul n (plu_P p) (PLU_L p);
          U' = (\<lambda>i j. PLU_U p i j + PLU_s p i j)
      in (positive_s p \<longrightarrow> (\<forall>i<n. exp_range (plu_log_s p i)))
         \<and> (\<forall>i<n. \<forall>j<n. (\<Sum>k<n. \<bar>plu_P p i k * PLU_L p k j\<bar>) \<le> f32_max
                          \<and> (\<Sum>k<n. \<bar>PL i k * U' k j\<bar>) \<le> f32_max))"

definition logdet_in_range :: "PLUMatrix \<Rightarrow> bool" where
  "logdet_in_range p \<longleftrightarrow>
     (if positive_s p then (\<Sum>i<plu_dim p. \<bar>plu_log_s p i\<bar>) \<le> f32_max
      else 0 < plu_eps p
           \<and> (\<forall>i<plu_dim p. \<bar>plu_log_s p i\<bar> + plu_eps p \<le> f32_max)
           \<and> (\<Sum>i<plu_dim p. \<bar>ln (\<bar>plu_log_s p i\<bar> + plu_eps p)\<bar>) \<le> f32_max)"

text \<open>
  \<open>InvertibleLinear\<close>. \<open>F.linear(x, W)\<close> maps the row \<open>x b\<close> of a batch to \<open>W (x b)\<close>. The
  matrix inversion \<open>torch.inverse\<close> of the tensor engine is a parameter of the inverse
  pass; it returns a matrix or raises, and the exception leaves \<open>inverse\<close>. Its contract
  is to return the inverse of a matrix that has one and to raise on a singular matrix.
\<close>

definition F_linear :: "nat \<Rightarrow> mat \<Rightarrow> mat \<Rightarrow> mat" where
  "F_linear n x W = (\<lambda>b i. \<Sum>j<n. x b j * W i j)"

definition IL_forward :: "PLUMatrix \<Rightarrow> mat \<Rightarrow> mat" where
  "IL_forward p x = F_linear (plu_dim p) x (PLU_W p)"


definition IL_logdet :: "PLUMatrix \<Rightarrow> nat \<Rightarrow> real list" where
  "IL_logdet p batch = replicate batch (PLU_logdet p)"

text \<open>
  The determinant, by expansion along the first column; \<open>minor i A\<close> is \<open>A\<close> without
  row \<open>i\<close> and without the first column.
\<close>

definition minor :: "nat \<Rightarrow> mat \<Rightarrow> mat" where
  "minor i A = (\<lambda>r c. A (if r < i then r else Suc r) (Suc c))"

primrec det :: "nat \<Rightarrow> mat \<Rightarrow> real" where
  "det 0 A = 1"
| "det (Suc n) A = (\<Sum>i\<le>n. (- 1) ^ i * A i 0 * det n (minor i A))"

text \<open>
  A two-sided inverse on the \<open>n \<times> n\<close> entries, and a permutation matrix: row \<open>i\<close> is the
  unit vector at \<open>\<sigma> i\<close>, for a permutation \<open>\<sigma>\<close> of the indices.
\<close>

definition is_inverse :: "nat \<Rightarrow> mat \<Rightarrow> mat \<Rightarrow> bool" where
  "is_inverse n A V \<longleftrightarrow>
     (\<forall>i<n. \<forall>j<n. matmul n A V i j = mat_one i j \<and> matmul n V A i j = mat_one i j)"

definition perm_matrix_of :: "(nat \<Rightarrow> nat) \<Rightarrow> mat" where
  "perm_matrix_of \<sigma> = (\<lambda>i j. if j = \<sigma> i then 1 else 0)"

definition is_perm_matrix :: "nat \<Rightarrow> mat \<Rightarrow> bool" where
  "is_perm_matrix n P \<longleftrightarrow>
     (\<exists>\<sigma>. bij_betw \<sigma> {..<n} {..<n} \<and> (\<forall>i<n. \<forall>j<n. P i j = perm_matrix_of \<sigma> i j))"




text \<open>
  Equality of two matrices on the \<open>n \<times> n\<close> entries, lower-triangular matrices, and the
  transpose, for the proofs about inverses.
\<close>

definition eq_upto :: "nat \<Rightarrow> mat \<Rightarrow> mat \<Rightarrow> bool" where
  "eq_upto n A B \<longleftrightarrow> (\<forall>i<n. \<forall>j<n. A i j = B i j)"

definition lower_tri :: "nat \<Rightarrow> mat \<Rightarrow> bool" where
  "lower_tri n T \<longleftrightarrow> (\<forall>i<n. \<forall>j<n. i < j \<longrightarrow> T i j = 0)"

definition transpose_mat :: "mat \<Rightarrow> mat" where
  "transpose_mat A = (\<lambda>i j. A j i)"

text \<open>The exchange of two adjacent indices, and of two arbitrary indices.\<close>

definition adj :: "nat \<Rightarrow> nat \<Rightarrow> nat" where
  "adj k i = (if i = k then Suc k else if i = Suc k then k else i)"

definition tr :: "nat \<Rightarrow> nat \<Rightarrow> nat \<Rightarrow> nat" where
  "tr a b i = (if i = a then b else if i = b then a else i)"

section \<open>Properties of the tensor operations\<close>

lemma shape_tmap [simp]: "shape (tmap f t) = shape t"
  by (simp add: tmap_def)

lemma data_tmap [simp]: "data (tmap f t) = map f (data t)"
  by (simp add: tmap_def)

lemma wf_tmap [simp]: "wf_tensor (tmap f t) = wf_tensor t"
  by (simp add: wf_tensor_def)

lemma shape_one_minus [simp]: "shape (one_minus b) = shape b"
  by (simp add: one_minus_def)

lemma data_one_minus [simp]: "data (one_minus b) = map (\<lambda>v. 1 - v) (data b)"
  by (simp add: one_minus_def)

lemma ln_2_range: "- 87 \<le> ln (2::real)" "ln (2::real) \<le> 88" "\<not> ln (2::real) \<le> - 104"
proof -
  have a: "0 \<le> ln (2::real)"
    by simp
  have b: "ln (2::real) < 1"
    by (rule ln_2_less_1)
  show "- 87 \<le> ln (2::real)"
    using a by linarith
  show "ln (2::real) \<le> 88"
    using b by linarith
  show "\<not> ln (2::real) \<le> - 104"
    using a by linarith
qed

lemma all_less_2: "(\<forall>i<2. Q i) \<longleftrightarrow> Q (0::nat) \<and> Q (Suc 0)"
  by (auto simp add: less_2_cases_iff)

lemma sum_less_2: "(\<Sum>k<2. f k) = f (0::nat) + (f (Suc 0) :: real)"
  by (simp add: numeral_2_eq_2)

section \<open>The default mask\<close>

lemma generate_mask_fold_shape:
  "shape (fold generate_mask_step is m) = shape m"
  by (induction "is" arbitrary: m) (simp_all add: generate_mask_step_def)

lemma generate_mask_fold_length:
  "length (data (fold generate_mask_step is m)) = length (data m)"
  by (induction "is" arbitrary: m) (simp_all add: generate_mask_step_def)

lemma generate_mask_fold_nth:
  "i < length (data m) \<Longrightarrow>
   data (fold generate_mask_step is m) ! i =
     (if i \<in> set is \<and> even i then 1 else data m ! i)"
proof (induction "is" arbitrary: m)
  case Nil
  then show ?case by simp
next
  case (Cons j js)
  have len: "i < length (data (generate_mask_step j m))"
    using Cons.prems by (simp add: generate_mask_step_def)
  have step: "data (generate_mask_step j m) ! i = (if i = j \<and> even i then 1 else data m ! i)"
    using Cons.prems
    by (cases "i = j") (simp_all add: generate_mask_step_def even_iff_mod_2_eq_zero)
  have "data (fold generate_mask_step (j # js) m) ! i =
        (if i \<in> set js \<and> even i then 1 else data (generate_mask_step j m) ! i)"
    using Cons.IH [OF len] by simp
  also have "\<dots> = (if i \<in> set (j # js) \<and> even i then 1 else data m ! i)"
    using step by (cases "i = j") simp_all
  finally show ?case .
qed

lemma shape_generate_mask [simp]: "shape (generate_mask d) = [1, d]"
  by (simp add: generate_mask_def generate_mask_fold_shape zeros_def)

lemma length_generate_mask [simp]: "length (data (generate_mask d)) = d"
  by (simp add: generate_mask_def generate_mask_fold_length zeros_def)

lemma nth_generate_mask:
  "i < d \<Longrightarrow> data (generate_mask d) ! i = (if even i then 1 else 0)"
  by (simp add: generate_mask_def generate_mask_fold_nth zeros_def)

lemma bshape_rev_same [simp]: "bshape_rev s s = s"
  by (induction s) simp_all

lemma bshape_same [simp]: "bshape s s = s"
  by (simp add: bshape_def)

lemma bop_same_shape:
  "shape a = shape b \<Longrightarrow> length (data a) = prod_list (shape a) \<Longrightarrow>
   length (data b) = prod_list (shape a) \<Longrightarrow>
   bop f a b = \<lparr>shape = shape a, data = map2 f (data a) (data b)\<rparr>"
  by (simp add: bop_def entry_def Let_def) (rule nth_equalityI, simp_all)

text \<open>
  C6. For every dimension \<open>d\<close> the default mask has shape \<open>(1, d)\<close>, is one at every
  even index and zero at every odd index; \<open>mask + (1 - mask)\<close> is the all-ones tensor and
  \<open>mask * (1 - mask)\<close> the all-zeros tensor of that shape; and the two elements of a
  combined layer are constructed with the masks \<open>mask\<close> and \<open>1 - mask\<close>, whether the mask
  is the default one or a given one.
\<close>

theorem generate_mask_complementary:
  "shape (generate_mask d) = [1, d]
   \<and> data (generate_mask d) = map (\<lambda>i. if even i then 1 else 0) [0..<d]
   \<and> tadd (generate_mask d) (one_minus (generate_mask d)) = \<lparr>shape = [1, d], data = replicate d 1\<rparr>
   \<and> tmul (generate_mask d) (one_minus (generate_mask d)) = zeros [1, d]
   \<and> nvp_mask (nvp_1 (combined_real_nvp_init d fls ft None c)) = generate_mask d
   \<and> nvp_mask (nvp_2 (combined_real_nvp_init d fls ft None c)) = one_minus (generate_mask d)
   \<and> nvp_mask (nvp_1 (combined_real_nvp_init d fls ft (Some m) c)) = m
   \<and> nvp_mask (nvp_2 (combined_real_nvp_init d fls ft (Some m) c)) = one_minus m"
proof -
  have dat: "data (generate_mask d) = map (\<lambda>i. if even i then 1 else 0) [0..<d]"
    by (rule nth_equalityI) (simp_all add: nth_generate_mask)
  have add: "tadd (generate_mask d) (one_minus (generate_mask d))
             = \<lparr>shape = [1, d], data = replicate d 1\<rparr>"
    by (subst bop_same_shape) (auto simp add: dat intro!: nth_equalityI)
  have mul: "tmul (generate_mask d) (one_minus (generate_mask d)) = zeros [1, d]"
    by (subst bop_same_shape) (auto simp add: dat zeros_def intro!: nth_equalityI)
  show ?thesis
    using dat add mul
    by (simp add: combined_real_nvp_init_def real_nvp_element_init_def Let_def)
qed

section \<open>The log-probability of the base distributions\<close>

lemma reshape_rows_ok:
  "b \<noteq> 0 \<Longrightarrow> length (data t) = b * k \<Longrightarrow>
   reshape_rows b t = Inr \<lparr>shape = [b, k], data = data t\<rparr>"
  by (simp add: reshape_rows_def)

lemma sum_last_rows:
  "sum_last \<lparr>shape = [b, k], data = xs\<rparr> =
   \<lparr>shape = [b], data = map (\<lambda>i. sum_list (take k (drop (i * k) xs))) [0..<b]\<rparr>"
  by (simp add: sum_last_def)

lemma logp_of_rank2:
  assumes "shape x = [b, k]" "shape logps = shape x"
  shows "logp_of logps x = Inr (per_sample_sums b k (data logps))"
proof -
  have "logps = \<lparr>shape = [b, k], data = data logps\<rparr>"
    using assms by simp
  then have "sum_last logps = per_sample_sums b k (data logps)"
    using sum_last_rows [of b k "data logps"] by (simp add: per_sample_sums_def)
  then show ?thesis
    using assms by (simp add: logp_of_def)
qed

lemma logp_of_rank34:
  assumes "length (shape x) = 3 \<or> length (shape x) = 4"
    and "shape x = b # rest" and "length (data logps) = b * prod_list rest"
  shows "logp_of logps x =
         (if b = 0 then Inl RuntimeError
          else Inr (per_sample_sums b (prod_list rest) (data logps)))"
proof (cases "b = 0")
  case True
  then show ?thesis
    using assms by (auto simp add: logp_of_def reshape_rows_def)
next
  case False
  have "reshape_rows b logps = Inr \<lparr>shape = [b, prod_list rest], data = data logps\<rparr>"
    using False assms(3) by (rule reshape_rows_ok)
  then show ?thesis
    using False assms(1,2)
    by (auto simp add: logp_of_def sum_last_rows per_sample_sums_def)
qed

lemma logp_of_other_rank:
  "length (shape x) \<notin> {2, 3, 4} \<Longrightarrow> logp_of logps x = Inl Exception"
  by (simp add: logp_of_def)

text \<open>
  C7. \<open>logp\<close> does not return for every input of rank 2, 3 or 4: on an input of rank 3
  with an empty batch, of shape \<open>(0, 1, 1)\<close>, both distributions raise, from
  \<open>reshape(0, -1)\<close>, while the rank-2 path returns the empty per-sample tensor on the
  empty batch of shape \<open>(0, 1)\<close>.
\<close>

theorem logp_empty_batch_raises:
  "normal_logp \<lparr>shape = [0, 1, 1], data = []\<rparr> = Inl RuntimeError
   \<and> laplace_logp \<lparr>lap_mu = 0, lap_beta = 1\<rparr> \<lparr>shape = [0, 1, 1], data = []\<rparr> = Inl RuntimeError
   \<and> wf_tensor \<lparr>shape = [0, 1, 1], data = []\<rparr>
   \<and> normal_logp \<lparr>shape = [0, 1], data = []\<rparr> = Inr \<lparr>shape = [0], data = []\<rparr>"
  by (simp add: normal_logp_def laplace_logp_def logp_of_def reshape_rows_def wf_tensor_def
      normal_log_prob_def laplace_log_prob_def sum_last_def)

section \<open>The divisor of the affine coupling\<close>




section \<open>Lazy initialisation of the feature split\<close>

lemma MuVar_forward_initialized:
  "initialized st \<Longrightarrow> MuVar_forward st y = (call_mu_var st y, st)"
  by (simp add: MuVar_forward_def)

lemma MuVar_initialize_high_rank:
  "4 < length (shape y) \<Longrightarrow> MuVar_initialize st y = (None, st\<lparr>initialized := True\<rparr>)"
  by (cases "shape y") (auto simp add: MuVar_initialize_def Let_def)

lemma MuVar_initialize_low_rank:
  "length (shape y) < 2 \<Longrightarrow>
   MuVar_initialize st y = (Some (if shape y = [] then ValueError else IndexError), st)"
  by (cases "shape y") (auto simp add: MuVar_initialize_def Let_def)

text \<open>
  C9, as stated, fails on a first input of rank one: \<open>shape[0]\<close> raises before the flag
  is set, the module stays uninitialised, and a later call with an input of rank two
  initialises it and returns.
\<close>

theorem MuVar_rank1_then_rank2:
  "fst (MuVar_forward (MuVar_init 2 1) \<lparr>shape = [1], data = [0]\<rparr>) = Inl IndexError
   \<and> snd (MuVar_forward (MuVar_init 2 1) \<lparr>shape = [1], data = [0]\<rparr>) = MuVar_init 2 1
   \<and> \<not> initialized (MuVar_init 2 1)
   \<and> \<not> isl (fst (MuVar_forward
                (snd (MuVar_forward (MuVar_init 2 1) \<lparr>shape = [1], data = [0]\<rparr>))
                \<lparr>shape = [1, 1], data = [0]\<rparr>))"
  by (simp add: MuVar_forward_def MuVar_initialize_def MuVar_init_def Let_def bind_mu_var_def
      MuVarVector_init_def call_mu_var_def mu_var_forward_def linear_forward_def zero_linear_def)

text \<open>
  C9, amended. Let the module be uninitialised, with no sub-estimator bound. If the
  first input has rank five or more, the flag is set, nothing is bound, the call fails
  on the missing attribute, and every later call fails in the same way and leaves the
  state as it is. If the first input has rank zero or one, the call fails before the
  flag is set and leaves the state unchanged.
\<close>

theorem MuVar_first_call_bad_rank:
  assumes "\<not> initialized st" and "mu_var st = None"
  shows "(4 < length (shape y) \<longrightarrow>
            MuVar_forward st y = (Inl AttributeError, st\<lparr>initialized := True\<rparr>)
            \<and> (\<forall>y'. MuVar_forward (st\<lparr>initialized := True\<rparr>) y'
                      = (Inl AttributeError, st\<lparr>initialized := True\<rparr>)))
         \<and> (length (shape y) < 2 \<longrightarrow>
            MuVar_forward st y = (Inl (if shape y = [] then ValueError else IndexError), st))"
proof (intro conjI impI allI)
  assume "4 < length (shape y)"
  then show "MuVar_forward st y = (Inl AttributeError, st\<lparr>initialized := True\<rparr>)"
    using assms by (simp add: MuVar_forward_def MuVar_initialize_high_rank call_mu_var_def)
next
  fix y'
  show "MuVar_forward (st\<lparr>initialized := True\<rparr>) y'
        = (Inl AttributeError, st\<lparr>initialized := True\<rparr>)"
    using assms by (simp add: MuVar_forward_initialized call_mu_var_def)
next
  assume "length (shape y) < 2"
  then show "MuVar_forward st y = (Inl (if shape y = [] then ValueError else IndexError), st)"
    using assms by (simp add: MuVar_forward_def MuVar_initialize_low_rank)
qed

theorem MuVar_first_call_bad_rank_witness:
  "\<not> initialized (MuVar_init 2 1) \<and> mu_var (MuVar_init 2 1) = None
   \<and> 4 < length (shape \<lparr>shape = [1, 1, 1, 1, 1], data = [0]\<rparr>)
   \<and> MuVar_forward (MuVar_init 2 1) \<lparr>shape = [1, 1, 1, 1, 1], data = [0]\<rparr>
       = (Inl AttributeError, (MuVar_init 2 1)\<lparr>initialized := True\<rparr>)
   \<and> MuVar_forward ((MuVar_init 2 1)\<lparr>initialized := True\<rparr>) \<lparr>shape = [1, 1], data = [0]\<rparr>
       = (Inl AttributeError, (MuVar_init 2 1)\<lparr>initialized := True\<rparr>)"
proof -
  have h1: "\<not> initialized (MuVar_init 2 1)" and h2: "mu_var (MuVar_init 2 1) = None"
    by (simp_all add: MuVar_init_def)
  show ?thesis
    using h1 h2 MuVar_first_call_bad_rank [OF h1 h2, of "\<lparr>shape = [1, 1, 1, 1, 1], data = [0]\<rparr>"]
    by simp
qed

section \<open>The zero-initialised sub-estimators\<close>

lemma sum_list_all_zero:
  "(\<And>x. x \<in> set xs \<Longrightarrow> f x = (0::real)) \<Longrightarrow> (\<Sum>x\<leftarrow>xs. f x) = 0"
  by (induction xs) simp_all

lemma map_all_const:
  "(\<And>x. x \<in> set xs \<Longrightarrow> f x = c) \<Longrightarrow> map f xs = replicate (length xs) c"
  by (induction xs) simp_all

lemma concat_all_replicate:
  "(\<And>x. x \<in> set xs \<Longrightarrow> f x = replicate k c) \<Longrightarrow>
   concat (map f xs) = replicate (length xs * k) c"
  by (induction xs) (simp_all add: replicate_add)

lemma index_bound:
  fixes a b :: nat
  assumes "a < A" and "b < B"
  shows "a * B + b < A * B"
proof -
  have "a * B + b < Suc a * B"
    using assms(2) by simp
  also have "Suc a * B \<le> A * B"
    using assms(1) by (intro mult_le_mono1) simp
  finally show ?thesis .
qed

lemma linear_forward_zero:
  assumes "shape y = s @ [i]"
  shows "linear_forward (zero_linear i n) y = Inr (zeros (s @ [n]))"
proof -
  have row: "map (\<lambda>oc. (\<Sum>j\<leftarrow>[0..<i]. data y ! (r * i + j) * replicate (n * i) 0 ! (oc * i + j))
                        + replicate n (0::real) ! oc) [0..<n] = replicate n 0" for r
  proof -
    have "(\<Sum>j\<leftarrow>[0..<i]. data y ! (r * i + j) * replicate (n * i) 0 ! (oc * i + j))
          + replicate n (0::real) ! oc = 0" if "oc \<in> set [0..<n]" for oc
    proof -
      have "(\<Sum>j\<leftarrow>[0..<i]. data y ! (r * i + j) * replicate (n * i) (0::real) ! (oc * i + j)) = 0"
      proof (rule sum_list_all_zero)
        fix j assume "j \<in> set [0..<i]"
        then have "oc * i + j < n * i"
          using that by (intro index_bound) simp_all
        then show "data y ! (r * i + j) * replicate (n * i) (0::real) ! (oc * i + j) = 0"
          by simp
      qed
      then show ?thesis using that by simp
    qed
    from map_all_const [of "[0..<n]" _ 0, OF this] show ?thesis by simp
  qed
  have "concat (map (\<lambda>r. map (\<lambda>oc. (\<Sum>j\<leftarrow>[0..<i]. data y ! (r * i + j) * replicate (n * i) 0 ! (oc * i + j))
                        + replicate n (0::real) ! oc) [0..<n]) [0..<prod_list s])
        = replicate (prod_list s * n) 0"
    using concat_all_replicate [of "[0..<prod_list s]" _ n "0::real"] row by simp
  then show ?thesis
    using assms by (simp add: linear_forward_def zero_linear_def zeros_def)
qed

lemma conv1d_forward_zero:
  assumes "shape y = [B, i, W]" and "0 < i" and "0 < n" and "0 < W"
  shows "conv1d_forward (zero_conv i n 3) y = Inr (zeros [B, n, W])"
proof -
  let ?w = "replicate (n * i * 3) (0::real)"
  let ?cell = "\<lambda>b oc w. (\<Sum>c\<leftarrow>[0..<i]. \<Sum>k\<leftarrow>[0..<3].
                    ?w ! ((oc * i + c) * 3 + k) *
                    (if 1 \<le> w + k \<and> w + k \<le> W then data y ! ((b * i + c) * W + (w + k - 1)) else 0))
                 + replicate n (0::real) ! oc"
  have cell: "?cell b oc w = 0" if "oc < n" for b oc w
  proof -
    have "(\<Sum>c\<leftarrow>[0..<i]. \<Sum>k\<leftarrow>[0..<3].
             ?w ! ((oc * i + c) * 3 + k) *
             (if 1 \<le> w + k \<and> w + k \<le> W then data y ! ((b * i + c) * W + (w + k - 1)) else 0)) = 0"
    proof (rule sum_list_all_zero, rule sum_list_all_zero)
      fix c k :: nat assume "c \<in> set [0..<i]" and "k \<in> set [0..<3]"
      then have "oc * i + c < n * i" and "k < 3"
        using that by (simp_all add: index_bound)
      then have "(oc * i + c) * 3 + k < n * i * 3"
        by (rule index_bound)
      then show "?w ! ((oc * i + c) * 3 + k) *
             (if 1 \<le> w + k \<and> w + k \<le> W then data y ! ((b * i + c) * W + (w + k - 1)) else 0) = 0"
        by simp
    qed
    then show ?thesis using that by simp
  qed
  have row: "map (?cell b oc) [0..<W] = replicate W 0" if "oc < n" for b oc
    using map_all_const [of "[0..<W]" "?cell b oc" 0] cell [OF that] by simp
  have plane: "concat (map (\<lambda>oc. map (?cell b oc) [0..<W]) [0..<n]) = replicate (n * W) 0" for b
    using concat_all_replicate [of "[0..<n]" "\<lambda>oc. map (?cell b oc) [0..<W]" W 0] row by simp
  have "concat (map (\<lambda>b. concat (map (\<lambda>oc. map (?cell b oc) [0..<W]) [0..<n])) [0..<B])
        = replicate (B * (n * W)) 0"
    using concat_all_replicate [of "[0..<B]" _ "n * W" "0::real"] plane by simp
  then show ?thesis
    using assms by (simp add: conv1d_forward_def zero_conv_def zeros_def Let_def mult.assoc)
qed

lemma conv2d_forward_zero:
  assumes "shape y = [B, i, H, W]" and "0 < i" and "0 < n" and "0 < H" and "0 < W"
  shows "conv2d_forward (zero_conv i n 9) y = Inr (zeros [B, n, H, W])"
proof -
  let ?w = "replicate (n * i * 9) (0::real)"
  let ?cell = "\<lambda>b oc h w. (\<Sum>c\<leftarrow>[0..<i]. \<Sum>kh\<leftarrow>[0..<3]. \<Sum>kw\<leftarrow>[0..<3].
                    ?w ! (((oc * i + c) * 3 + kh) * 3 + kw) *
                    (if 1 \<le> h + kh \<and> h + kh \<le> H \<and> 1 \<le> w + kw \<and> w + kw \<le> W
                     then data y ! (((b * i + c) * H + (h + kh - 1)) * W + (w + kw - 1)) else 0))
                 + replicate n (0::real) ! oc"
  have cell: "?cell b oc h w = 0" if "oc < n" for b oc h w
  proof -
    have "(\<Sum>c\<leftarrow>[0..<i]. \<Sum>kh\<leftarrow>[0..<3]. \<Sum>kw\<leftarrow>[0..<3].
             ?w ! (((oc * i + c) * 3 + kh) * 3 + kw) *
             (if 1 \<le> h + kh \<and> h + kh \<le> H \<and> 1 \<le> w + kw \<and> w + kw \<le> W
              then data y ! (((b * i + c) * H + (h + kh - 1)) * W + (w + kw - 1)) else 0)) = 0"
    proof (rule sum_list_all_zero, rule sum_list_all_zero, rule sum_list_all_zero)
      fix c kh kw :: nat
      assume "c \<in> set [0..<i]" and "kh \<in> set [0..<3]" and "kw \<in> set [0..<3]"
      then have a: "oc * i + c < n * i" and kh: "kh < 3" and kw: "kw < 3"
        using that by (simp_all add: index_bound)
      from a kh have "(oc * i + c) * 3 + kh < n * i * 3"
        by (rule index_bound)
      then have "((oc * i + c) * 3 + kh) * 3 + kw < n * i * 3 * 3"
        using kw by (rule index_bound)
      then have "((oc * i + c) * 3 + kh) * 3 + kw < n * i * 9"
        by simp
      then show "?w ! (((oc * i + c) * 3 + kh) * 3 + kw) *
             (if 1 \<le> h + kh \<and> h + kh \<le> H \<and> 1 \<le> w + kw \<and> w + kw \<le> W
              then data y ! (((b * i + c) * H + (h + kh - 1)) * W + (w + kw - 1)) else 0) = 0"
        by simp
    qed
    then show ?thesis using that by simp
  qed
  have row: "map (?cell b oc h) [0..<W] = replicate W 0" if "oc < n" for b oc h
    using map_all_const [of "[0..<W]" "?cell b oc h" 0] cell [OF that] by simp
  have plane: "concat (map (\<lambda>h. map (?cell b oc h) [0..<W]) [0..<H]) = replicate (H * W) 0"
    if "oc < n" for b oc
    using concat_all_replicate [of "[0..<H]" "\<lambda>h. map (?cell b oc h) [0..<W]" W 0] row [OF that]
    by simp
  have vol: "concat (map (\<lambda>oc. concat (map (\<lambda>h. map (?cell b oc h) [0..<W]) [0..<H])) [0..<n])
             = replicate (n * (H * W)) 0" for b
    using concat_all_replicate [of "[0..<n]" _ "H * W" "0::real"] plane by simp
  have "concat (map (\<lambda>b. concat (map (\<lambda>oc. concat (map (\<lambda>h. map (?cell b oc h) [0..<W]) [0..<H]))
          [0..<n])) [0..<B]) = replicate (B * (n * (H * W))) 0"
    using concat_all_replicate [of "[0..<B]" _ "n * (H * W)" "0::real"] vol by simp
  then show ?thesis
    using assms by (simp add: conv2d_forward_def zero_conv_def zeros_def Let_def mult.assoc)
qed

lemma exp_var_zeros:
  "exp_var (zeros s) = \<lparr>shape = s, data = replicate (prod_list s) (muvar_eps + 1)\<rparr>"
  by (simp add: exp_var_def zeros_def tmap_def)

lemma MuVar_forward_keeps_initialized:
  "initialized st \<Longrightarrow> snd (MuVar_forward st y') = st"
  by (simp add: MuVar_forward_def)

lemma MuVar_first_call_vector:
  assumes "0 < fo" and "fo < fi" and "shape y = [B, nat fo]"
  shows "MuVar_forward (MuVar_init fi fo) y =
     (Inr (zeros [B, nat (fi - fo)],
           \<lparr>shape = [B, nat (fi - fo)], data = replicate (B * nat (fi - fo)) (muvar_eps + 1)\<rparr>,
           tmap (\<lambda>v. -1 * v) (per_sample_sums B (nat (fi - fo))
              (map ln (replicate (B * nat (fi - fo)) (muvar_eps + 1))))),
      \<lparr>initialized = True, feature_in = fi, feature_out = fo,
       mu_var = Some (MuVarVector (zero_linear (nat fo) (nat (fi - fo)))
                                  (zero_linear (nat fo) (nat (fi - fo))))\<rparr>)"
proof -
  have lin: "linear_forward (zero_linear (nat fo) (nat (fi - fo))) y = Inr (zeros [B, nat (fi - fo)])"
    using linear_forward_zero [of y "[B]" "nat fo" "nat (fi - fo)"] assms(3) by simp
  show ?thesis
    using assms
    by (simp add: MuVar_forward_def MuVar_init_def MuVar_initialize_def Let_def bind_mu_var_def
        MuVarVector_init_def call_mu_var_def mu_var_forward_def lin exp_var_zeros
        sum_last_rows per_sample_sums_def tmap_def)
qed

lemma MuVar_first_call_1d:
  assumes "0 < fo" and "fo < fi" and "shape y = [B, nat fo, W]" and "0 < B" and "0 < W"
  shows "MuVar_forward (MuVar_init fi fo) y =
     (Inr (zeros [B, nat (fi - fo), W],
           \<lparr>shape = [B, nat (fi - fo), W],
            data = replicate (B * (nat (fi - fo) * W)) (muvar_eps + 1)\<rparr>,
           tmap (\<lambda>v. -1 * v) (per_sample_sums B (nat (fi - fo) * W)
              (map ln (replicate (B * (nat (fi - fo) * W)) (muvar_eps + 1))))),
      \<lparr>initialized = True, feature_in = fi, feature_out = fo,
       mu_var = Some (MuVar1d (zero_conv (nat fo) (nat (fi - fo)) 3)
                              (zero_conv (nat fo) (nat (fi - fo)) 3))\<rparr>)"
proof -
  let ?n = "nat (fi - fo)"
  have cv: "conv1d_forward (zero_conv (nat fo) ?n 3) y = Inr (zeros [B, ?n, W])"
    using conv1d_forward_zero [of y B "nat fo" W ?n] assms by simp
  have rs: "reshape_rows B \<lparr>shape = [B, ?n, W], data = replicate (B * (?n * W)) (ln (muvar_eps + 1))\<rparr>
            = Inr \<lparr>shape = [B, ?n * W], data = replicate (B * (?n * W)) (ln (muvar_eps + 1))\<rparr>"
    using assms(4) by (simp add: reshape_rows_def)
  show ?thesis
    using assms
    by (simp add: MuVar_forward_def MuVar_init_def MuVar_initialize_def Let_def bind_mu_var_def
        MuVar1d_init_def call_mu_var_def mu_var_forward_def cv exp_var_zeros rs
        sum_last_rows per_sample_sums_def tmap_def)
qed

lemma MuVar_first_call_2d:
  assumes "0 < fo" and "fo < fi" and "shape y = [B, nat fo, H, W]" and "0 < B"
    and "0 < H" and "0 < W"
  shows "MuVar_forward (MuVar_init fi fo) y =
     (Inr (zeros [B, nat (fi - fo), H, W],
           \<lparr>shape = [B, nat (fi - fo), H, W],
            data = replicate (B * (nat (fi - fo) * (H * W))) (muvar_eps + 1)\<rparr>,
           tmap (\<lambda>v. -1 * v) (per_sample_sums B (nat (fi - fo) * (H * W))
              (map ln (replicate (B * (nat (fi - fo) * (H * W))) (muvar_eps + 1))))),
      \<lparr>initialized = True, feature_in = fi, feature_out = fo,
       mu_var = Some (MuVar2d (zero_conv (nat fo) (nat (fi - fo)) 9)
                              (zero_conv (nat fo) (nat (fi - fo)) 9))\<rparr>)"
proof -
  let ?n = "nat (fi - fo)"
  have cv: "conv2d_forward (zero_conv (nat fo) ?n 9) y = Inr (zeros [B, ?n, H, W])"
    using conv2d_forward_zero [of y B "nat fo" H W ?n] assms by simp
  have rs: "reshape_rows B \<lparr>shape = [B, ?n, H, W],
               data = replicate (B * (?n * (H * W))) (ln (muvar_eps + 1))\<rparr>
            = Inr \<lparr>shape = [B, ?n * (H * W)],
                   data = replicate (B * (?n * (H * W))) (ln (muvar_eps + 1))\<rparr>"
    using assms(4) by (simp add: reshape_rows_def)
  show ?thesis
    using assms
    by (simp add: MuVar_forward_def MuVar_init_def MuVar_initialize_def Let_def bind_mu_var_def
        MuVar2d_init_def call_mu_var_def mu_var_forward_def cv exp_var_zeros rs
        sum_last_rows per_sample_sums_def tmap_def)
qed

text \<open>
  C8. Let the module be freshly constructed with \<open>0 < feature_out < feature_in\<close>, and
  let the first input have \<open>feature_out\<close> features after the batch axis and at most two
  further axes; when there are further axes, the batch and every further axis are not
  empty. The first forward call binds the sub-estimator of that rank, whose weights and
  biases are all zero, and returns \<open>mu = 0\<close>, \<open>var = eps + 1\<close> elementwise and
  \<open>log_det = - sum (log var)\<close> per sample, for the all-zero input as for any other; from
  then on no call changes the state, so nothing is constructed a second time.
\<close>

theorem MuVar_lazy_zero_initialization:
  assumes "0 < fo" and "fo < fi" and "shape y = B # nat fo # rest"
    and "length rest \<le> 2" and "rest = [] \<or> (0 < B \<and> (\<forall>w \<in> set rest. 0 < w))"
  shows "let n = nat (fi - fo);
             k = n * prod_list rest;
             var = \<lparr>shape = B # n # rest, data = replicate (B * k) (muvar_eps + 1)\<rparr>;
             M = (if rest = [] then MuVarVector (zero_linear (nat fo) n) (zero_linear (nat fo) n)
                  else if length rest = 1 then MuVar1d (zero_conv (nat fo) n 3) (zero_conv (nat fo) n 3)
                  else MuVar2d (zero_conv (nat fo) n 9) (zero_conv (nat fo) n 9));
             st' = \<lparr>initialized = True, feature_in = fi, feature_out = fo, mu_var = Some M\<rparr>
         in MuVar_forward (MuVar_init fi fo) y =
              (Inr (zeros (B # n # rest), var,
                    tmap (\<lambda>v. -1 * v) (per_sample_sums B k (map ln (data var)))), st')
            \<and> (\<forall>y'. snd (MuVar_forward st' y') = st')"
proof -
  consider (vec) "rest = []" | (one) W where "rest = [W]" | (two) H W where "rest = [H, W]"
  proof (cases rest)
    case Nil
    then show ?thesis using vec by simp
  next
    case (Cons a as)
    note outer = this
    show ?thesis
    proof (cases as)
      case Nil
      then show ?thesis using one outer by simp
    next
      case (Cons c cs)
      then have "cs = []" using assms(4) outer by simp
      then show ?thesis using two outer Cons by simp
    qed
  qed
  then show ?thesis
  proof cases
    case vec
    then show ?thesis
      using MuVar_first_call_vector [OF assms(1,2), of y B] assms(3)
      by (simp add: Let_def MuVar_forward_keeps_initialized zeros_def)
  next
    case one
    then have "0 < B" and "0 < W"
      using assms(5) by simp_all
    then show ?thesis
      using MuVar_first_call_1d [OF assms(1,2), of y B W] assms(3) one
      by (simp add: Let_def MuVar_forward_keeps_initialized zeros_def)
  next
    case two
    then have "0 < B" and "0 < H" and "0 < W"
      using assms(5) by simp_all
    then show ?thesis
      using MuVar_first_call_2d [OF assms(1,2), of y B H W] assms(3) two
      by (simp add: Let_def MuVar_forward_keeps_initialized zeros_def)
  qed
qed

theorem MuVar_lazy_zero_initialization_witness:
  "(0::int) < 1 \<and> (1::int) < 3
   \<and> shape \<lparr>shape = [2, 1, 2], data = [1, 2, 3, 4]\<rparr> = 2 # nat 1 # [2]
   \<and> length [2::nat] \<le> 2 \<and> (0::nat) < 2 \<and> list_all (\<lambda>w. 0 < w) [2::nat]
   \<and> (let n = nat (3 - 1);
           k = n * prod_list [2];
           var = \<lparr>shape = 2 # n # [2], data = replicate (2 * k) (muvar_eps + 1)\<rparr>;
           M = MuVar1d (zero_conv (nat 1) n 3) (zero_conv (nat 1) n 3);
           st' = \<lparr>initialized = True, feature_in = 3, feature_out = 1, mu_var = Some M\<rparr>
       in MuVar_forward (MuVar_init 3 1) \<lparr>shape = [2, 1, 2], data = [1, 2, 3, 4]\<rparr> =
            (Inr (zeros (2 # n # [2]), var,
                  tmap (\<lambda>v. -1 * v) (per_sample_sums 2 k (map ln (data var)))), st')
          \<and> snd (MuVar_forward st' \<lparr>shape = [1, 1, 3], data = [5, 6, 7]\<rparr>) = st')"
proof -
  have h3: "shape \<lparr>shape = [2, 1, 2], data = [1, 2, 3, 4]\<rparr> = 2 # nat 1 # [2]"
    by simp
  have h4: "length [2::nat] \<le> 2"
    and h5: "[2::nat] = [] \<or> ((0::nat) < 2 \<and> (\<forall>w \<in> set [2::nat]. 0 < w))"
    by simp_all
  show ?thesis
    using MuVar_lazy_zero_initialization
      [of 1 3 "\<lparr>shape = [2, 1, 2], data = [1, 2, 3, 4]\<rparr>" 2 "[2]", OF _ _ h3 h4 h5]
    by (simp add: Let_def)
qed

section \<open>The estimator loop and its closed form\<close>

lemma tens_is_eq:
  assumes "tens_is S f t"
  shows "t = \<lparr>shape = S, data = map f [0..<prod_list S]\<rparr>"
proof -
  have "data t = map f [0..<prod_list S]"
    using assms by (intro nth_equalityI) (simp_all add: tens_is_def)
  then show ?thesis
    using assms by (cases t) (simp add: tens_is_def)
qed


lemma acc_is_cong:
  "acc_is S f acc \<Longrightarrow> (\<And>j. j < prod_list S \<Longrightarrow> f j = g j) \<Longrightarrow> acc_is S g acc"
  by (cases acc) (simp_all add: acc_is_def tens_is_def)

lemma butlast_bshape_same: "shape (tmul w v) = bshape (shape w) (shape v)"
  by (simp add: bop_def Let_def)

lemma logdet_term_is:
  assumes "shape w = sx" and "shape v = sx"
  shows "tens_is (butlast sx)
           (\<lambda>j. (- 1) ^ (k + 1) / real k * data (sum_last (tmul w v)) ! j) (logdet_term k w v)"
proof -
  have "shape (tmul w v) = sx" and "length (data (tmul w v)) = prod_list sx"
    using assms by (simp_all add: bop_def Let_def)
  then have "shape (sum_last (tmul w v)) = butlast sx"
    and "length (data (sum_last (tmul w v))) = prod_list (butlast sx)"
    by (auto simp add: sum_last_def Let_def)
  then show ?thesis
    by (simp add: tens_is_def logdet_term_def)
qed

lemma py_add_is:
  assumes "acc_is S f acc" and "tens_is S g T"
  shows "acc_is S (\<lambda>j. f j + g j) (py_add acc T) \<and> is_tensor (py_add acc T)"
proof (cases acc)
  case (PyNum a)
  then show ?thesis
    using assms by (simp add: acc_is_def tens_is_def is_tensor_def)
next
  case (PyTensor s)
  then have s: "tens_is S f s"
    using assms(1) by (simp add: acc_is_def)
  have "tadd s T = \<lparr>shape = shape s, data = map2 (+) (data s) (data T)\<rparr>"
    using s assms(2) by (intro bop_same_shape) (simp_all add: tens_is_def)
  then show ?thesis
    using PyTensor s assms(2) by (simp add: acc_is_def tens_is_def is_tensor_def)
qed

lemma logdet_inner_fold:
  assumes vj: "\<forall>w. shape (vjp_g w) = sx" and v: "shape v = sx"
    and acc: "acc_is (butlast sx) f acc"
  shows "fst (fold (logdet_inner_step vjp_g v) [Suc a..<Suc a + m] ((vjp_g ^^ a) v, acc))
           = (vjp_g ^^ (a + m)) v
         \<and> acc_is (butlast sx)
             (\<lambda>j. f j + (\<Sum>k\<leftarrow>[Suc a..<Suc a + m].
                (- 1) ^ (k + 1) / real k * data (sum_last (tmul ((vjp_g ^^ k) v) v)) ! j))
             (snd (fold (logdet_inner_step vjp_g v) [Suc a..<Suc a + m] ((vjp_g ^^ a) v, acc)))
         \<and> (0 < m \<longrightarrow>
             is_tensor (snd (fold (logdet_inner_step vjp_g v) [Suc a..<Suc a + m] ((vjp_g ^^ a) v, acc))))"
proof (induction m)
  case 0
  then show ?case using acc by simp
next
  case (Suc m)
  let ?st = "fold (logdet_inner_step vjp_g v) [Suc a..<Suc a + m] ((vjp_g ^^ a) v, acc)"
  let ?k = "Suc (a + m)"
  let ?g = "\<lambda>j. f j + (\<Sum>k\<leftarrow>[Suc a..<Suc a + m].
                (- 1) ^ (k + 1) / real k * data (sum_last (tmul ((vjp_g ^^ k) v) v)) ! j)"
  have spl: "[Suc a..<Suc a + Suc m] = [Suc a..<Suc a + m] @ [?k]"
    by simp
  have fld: "fold (logdet_inner_step vjp_g v) [Suc a..<Suc a + Suc m] ((vjp_g ^^ a) v, acc)
              = logdet_inner_step vjp_g v ?k ?st"
    by (simp only: spl fold_append fold_simps comp_apply)
  have w: "vjp_g (fst ?st) = (vjp_g ^^ ?k) v"
    using Suc.IH by simp
  have trm: "tens_is (butlast sx)
           (\<lambda>j. (- 1) ^ (?k + 1) / real ?k * data (sum_last (tmul ((vjp_g ^^ ?k) v) v)) ! j)
           (logdet_term ?k ((vjp_g ^^ ?k) v) v)"
    by (rule logdet_term_is) (simp_all add: vj [rule_format] v)
  have prev: "acc_is (butlast sx) ?g (snd ?st)"
    using Suc.IH by simp
  note step = py_add_is [OF prev trm]
  have "acc_is (butlast sx)
          (\<lambda>j. f j + (\<Sum>k\<leftarrow>[Suc a..<Suc a + Suc m].
                (- 1) ^ (k + 1) / real k * data (sum_last (tmul ((vjp_g ^^ k) v) v)) ! j))
          (py_add (snd ?st) (logdet_term ?k ((vjp_g ^^ ?k) v) v))"
    by (rule acc_is_cong [OF conjunct1 [OF step]]) (simp only: spl sum_list_append map_append, simp)
  moreover have res: "logdet_inner_step vjp_g v ?k ?st
              = ((vjp_g ^^ ?k) v, py_add (snd ?st) (logdet_term ?k ((vjp_g ^^ ?k) v) v))"
    by (simp only: logdet_inner_step_def Let_def w)
  moreover have idx: "a + Suc m = ?k"
    by simp
  ultimately show ?case
    using conjunct2 [OF step] by (simp only: fld fst_conv snd_conv) blast
qed

lemma logdet_outer_step_is:
  assumes vj: "\<forall>w. shape (vjp_g w) = sx" and pr: "shape (probe i) = sx"
    and acc: "acc_is (butlast sx) f acc"
  shows "acc_is (butlast sx)
           (\<lambda>j. f j + (\<Sum>k\<leftarrow>[1..<nat num_n].
              (- 1) ^ (k + 1) / real k * data (sum_last (tmul ((vjp_g ^^ k) (probe i)) (probe i))) ! j))
           (logdet_outer_step vjp_g probe num_n i acc)
         \<and> (1 < num_n \<longrightarrow> is_tensor (logdet_outer_step vjp_g probe num_n i acc))
         \<and> (\<not> 1 < num_n \<longrightarrow> logdet_outer_step vjp_g probe num_n i acc = acc)"
proof -
  have lst: "[Suc 0..<Suc 0 + (nat num_n - 1)] = [1..<nat num_n]"
    by (cases "nat num_n") simp_all
  have emp: "\<not> 1 < num_n \<Longrightarrow> [1..<nat num_n] = []"
    by simp
  have pos: "1 < num_n \<Longrightarrow> 0 < nat num_n - 1"
    by simp
  note inner = logdet_inner_fold [OF vj pr acc, where a = 0 and m = "nat num_n - 1", unfolded lst]
  have eq: "logdet_outer_step vjp_g probe num_n i acc
        = snd (fold (logdet_inner_step vjp_g (probe i)) [1..<nat num_n] ((vjp_g ^^ 0) (probe i), acc))"
    by (simp add: logdet_outer_step_def Let_def)
  have c1: "acc_is (butlast sx)
           (\<lambda>j. f j + (\<Sum>k\<leftarrow>[1..<nat num_n].
              (- 1) ^ (k + 1) / real k * data (sum_last (tmul ((vjp_g ^^ k) (probe i)) (probe i))) ! j))
           (logdet_outer_step vjp_g probe num_n i acc)"
    unfolding eq by (rule inner [THEN conjunct2, THEN conjunct1])
  have c2: "1 < num_n \<longrightarrow> is_tensor (logdet_outer_step vjp_g probe num_n i acc)"
    unfolding eq using inner [THEN conjunct2, THEN conjunct2] pos by auto
  have c3: "\<not> 1 < num_n \<longrightarrow> logdet_outer_step vjp_g probe num_n i acc = acc"
    using emp by (simp add: logdet_outer_step_def Let_def)
  show ?thesis
    using c1 c2 c3 by (intro conjI)
qed

lemma logdet_outer_fold:
  assumes vj: "\<forall>w. shape (vjp_g w) = sx" and pr: "\<forall>i. shape (probe i) = sx"
  shows "acc_is (butlast sx)
           (\<lambda>j. \<Sum>i\<leftarrow>[0..<n]. \<Sum>k\<leftarrow>[1..<nat num_n].
              (- 1) ^ (k + 1) / real k * data (sum_last (tmul ((vjp_g ^^ k) (probe i)) (probe i))) ! j)
           (fold (logdet_outer_step vjp_g probe num_n) [0..<n] (PyNum 0))
         \<and> (0 < n \<and> 1 < num_n \<longrightarrow>
              is_tensor (fold (logdet_outer_step vjp_g probe num_n) [0..<n] (PyNum 0)))
         \<and> (\<not> (0 < n \<and> 1 < num_n) \<longrightarrow>
              fold (logdet_outer_step vjp_g probe num_n) [0..<n] (PyNum 0) = PyNum 0)"
proof (induction n)
  case 0
  then show ?case by (simp add: acc_is_def)
next
  case (Suc n)
  let ?acc = "fold (logdet_outer_step vjp_g probe num_n) [0..<n] (PyNum 0)"
  have fld: "fold (logdet_outer_step vjp_g probe num_n) [0..<Suc n] (PyNum 0)
             = logdet_outer_step vjp_g probe num_n n ?acc"
    by simp
  have prn: "shape (probe n) = sx"
    using pr by simp
  note step = logdet_outer_step_is [where vjp_g = vjp_g and probe = probe and i = n
      and num_n = num_n, OF vj prn conjunct1 [OF Suc.IH]]
  have "acc_is (butlast sx)
           (\<lambda>j. \<Sum>i\<leftarrow>[0..<Suc n]. \<Sum>k\<leftarrow>[1..<nat num_n].
              (- 1) ^ (k + 1) / real k * data (sum_last (tmul ((vjp_g ^^ k) (probe i)) (probe i))) ! j)
           (logdet_outer_step vjp_g probe num_n n ?acc)"
    by (rule acc_is_cong [OF conjunct1 [OF step]]) simp
  moreover have "1 < num_n \<longrightarrow> is_tensor (logdet_outer_step vjp_g probe num_n n ?acc)"
    using step by blast
  moreover have "\<not> 1 < num_n \<longrightarrow> logdet_outer_step vjp_g probe num_n n ?acc = PyNum 0"
    using step Suc.IH by simp
  ultimately show ?case
    by (simp only: fld) blast
qed

text \<open>
  C5. Let the vector-Jacobian product and the probes have the shape of \<open>x\<close>, and let
  \<open>num_iter\<close> be positive. Then the two nested loops of \<open>iResNet.logdet\<close> return, entry by
  entry, the sum over the probes of the sum over \<open>k = 1, \<dots>, num_n - 1\<close> of
  \<open>(-1)\<^sup>k\<^sup>+\<^sup>1 / k\<close> times the sum over the last axis of \<open>w * v\<close>, with \<open>w\<close> the \<open>k\<close>-fold
  vector-Jacobian product of \<open>v\<close>, divided by \<open>num_iter\<close>; the module is left in training
  mode. When \<open>num_n \<le> 1\<close> there is no term and the result is the number zero.
\<close>

theorem iResNet_logdet_formula:
  assumes "\<forall>w. shape (vjp_g w) = sx" and "\<forall>i. shape (probe i) = sx" and "0 < num_iter"
  shows "iResNet_logdet vjp_g probe num_iter num_n md =
           (Inr (if 1 < num_n
                 then PyTensor \<lparr>shape = butlast sx,
                        data = map (logdet_spec vjp_g probe num_iter num_n)
                                 [0..<prod_list (butlast sx)]\<rparr>
                 else PyNum 0),
            md\<lparr>training := True\<rparr>)"
proof -
  let ?acc = "fold (logdet_outer_step vjp_g probe num_n) [0..<nat num_iter] (PyNum 0)"
  note outer = logdet_outer_fold [OF assms(1,2), where n = "nat num_iter" and num_n = num_n]
  show ?thesis
  proof (cases "1 < num_n")
    case False
    then have "?acc = PyNum 0"
      using outer by blast
    then show ?thesis
      using False assms(3) by (simp add: iResNet_logdet_def Let_def)
  next
    case True
    then have "is_tensor ?acc"
      using outer assms(3) by simp
    then obtain t where t: "?acc = PyTensor t"
      by (cases ?acc) (simp_all add: is_tensor_def)
    then have "tens_is (butlast sx)
           (\<lambda>j. \<Sum>i\<leftarrow>[0..<nat num_iter]. \<Sum>k\<leftarrow>[1..<nat num_n].
              (- 1) ^ (k + 1) / real k * data (sum_last (tmul ((vjp_g ^^ k) (probe i)) (probe i))) ! j) t"
      using outer by (simp add: acc_is_def)
    then have "tens_is (butlast sx) (logdet_spec vjp_g probe num_iter num_n)
                 (tmap (\<lambda>u. u / real_of_int num_iter) t)"
      by (simp add: tens_is_def logdet_spec_def)
    from tens_is_eq [OF this] show ?thesis
      using True t by (simp add: iResNet_logdet_def Let_def)
  qed
qed

theorem iResNet_logdet_formula_witness:
  "(\<forall>w. shape \<lparr>shape = [2], data = map (\<lambda>u. u / 2) (data w)\<rparr> = [2])
   \<and> (\<forall>i::nat. shape \<lparr>shape = [2], data = [1, 2]\<rparr> = [2])
   \<and> (0::int) < 1
   \<and> iResNet_logdet (\<lambda>w. \<lparr>shape = [2], data = map (\<lambda>u. u / 2) (data w)\<rparr>)
         (\<lambda>i. \<lparr>shape = [2], data = [1, 2]\<rparr>) 1 3 \<lparr>training = True\<rparr>
       = (Inr (PyTensor \<lparr>shape = [],
            data = map (logdet_spec (\<lambda>w. \<lparr>shape = [2], data = map (\<lambda>u. u / 2) (data w)\<rparr>)
                          (\<lambda>i. \<lparr>shape = [2], data = [1, 2]\<rparr>) 1 3) [0..<1]\<rparr>),
          \<lparr>training = True\<rparr>)"
proof -
  have h1: "\<forall>w. shape \<lparr>shape = [2], data = map (\<lambda>u. u / 2) (data w)\<rparr> = [2]"
    and h2: "\<forall>i::nat. shape \<lparr>shape = [2], data = [1, 2]\<rparr> = [2]"
    and h3: "(0::int) < 1"
    by simp_all
  show ?thesis
    using iResNet_logdet_formula [OF h1 h2 h3, of 3 "\<lparr>training = True\<rparr>"]
    by simp
qed

section \<open>Entrywise reasoning about broadcast operations\<close>




lemma tens_is_wf: "tens_is S g t \<Longrightarrow> wf_tensor t \<and> shape t = S"
  by (simp add: tens_is_def wf_tensor_def)




lemma bshape_rev_Nil2 [simp]: "bshape_rev xs [] = xs"
  by (cases xs) simp_all











section \<open>The additive coupling is inverted exactly\<close>


section \<open>The affine coupling\<close>






section \<open>Determinants\<close>

lemma det_cong:
  "(\<And>i j. i < n \<Longrightarrow> j < n \<Longrightarrow> A i j = B i j) \<Longrightarrow> det n A = det n B"
proof (induction n arbitrary: A B)
  case 0
  then show ?case by simp
next
  case (Suc n)
  have "det n (minor i A) = det n (minor i B)" if "i \<le> n" for i
    by (rule Suc.IH) (simp add: minor_def Suc.prems)
  then show ?case
    by (simp add: Suc.prems)
qed

lemma det_zero_row:
  "r \<le> n \<Longrightarrow> (\<And>c. c \<le> n \<Longrightarrow> A r c = 0) \<Longrightarrow> det (Suc n) A = 0"
proof (induction n arbitrary: A r)
  case 0
  then show ?case by simp
next
  case (Suc n)
  have tm: "(- 1) ^ i * A i 0 * det (Suc n) (minor i A) = 0" if "i \<le> Suc n" for i
  proof (cases "i = r")
    case True
    then show ?thesis using Suc.prems(2) [of 0] by simp
  next
    case False
    let ?r = "if r < i then r else r - 1"
    have "?r \<le> n"
      using Suc.prems(1) that False by auto
    moreover have "minor i A ?r c = 0" if "c \<le> n" for c
      using Suc.prems(2) [of "Suc c"] that False by (auto simp add: minor_def)
    ultimately have "det (Suc n) (minor i A) = 0"
      by (rule Suc.IH)
    then show ?thesis by simp
  qed
  have "det (Suc (Suc n)) A = (\<Sum>i\<le>Suc n. (- 1) ^ i * A i 0 * det (Suc n) (minor i A))"
    by (rule det.simps(2))
  also have "\<dots> = 0"
  proof (rule sum.neutral, rule ballI)
    fix i assume "i \<in> {..Suc n}"
    then have "i \<le> Suc n" by simp
    then show "(- 1) ^ i * A i 0 * det (Suc n) (minor i A) = 0"
      by (rule tm)
  qed
  finally show ?case .
qed

lemma det_first:
  assumes "(\<forall>j. 0 < j \<and> j \<le> n \<longrightarrow> A 0 j = 0) \<or> (\<forall>i. 0 < i \<and> i \<le> n \<longrightarrow> A i 0 = 0)"
  shows "det (Suc n) A = A 0 0 * det n (minor 0 A)"
proof -
  have tm: "(- 1) ^ i * A i 0 * det n (minor i A) = 0" if pos: "0 < i" and le: "i \<le> n" for i
  proof (cases "\<forall>i. 0 < i \<and> i \<le> n \<longrightarrow> A i 0 = 0")
    case True
    then show ?thesis using pos le by simp
  next
    case False
    then have row: "\<forall>j. 0 < j \<and> j \<le> n \<longrightarrow> A 0 j = 0"
      using assms by blast
    obtain m where m: "n = Suc m"
      using pos le by (cases n) auto
    have "minor i A 0 c = 0" if "c \<le> m" for c
      using row that pos m by (simp add: minor_def)
    then have "det (Suc m) (minor i A) = 0"
      by (intro det_zero_row [of 0 m]) simp_all
    then show ?thesis using m by simp
  qed
  have "det (Suc n) A = (\<Sum>i\<le>n. (- 1) ^ i * A i 0 * det n (minor i A))"
    by (rule det.simps(2))
  also have "\<dots> = (\<Sum>i\<in>{0}. (- 1) ^ i * A i 0 * det n (minor i A))"
  proof (rule sum.mono_neutral_right)
    show "\<forall>i\<in>{..n} - {0}. (- 1) ^ i * A i 0 * det n (minor i A) = 0"
    proof
      fix i assume "i \<in> {..n} - {0}"
      then have "0 < i" and "i \<le> n" by simp_all
      then show "(- 1) ^ i * A i 0 * det n (minor i A) = 0" by (rule tm)
    qed
  qed simp_all
  also have "\<dots> = A 0 0 * det n (minor 0 A)"
    by simp
  finally show ?thesis .
qed

text \<open>
  A matrix in which every index has its row zero to the right of the diagonal or its
  column zero below the diagonal has the product of its diagonal as determinant; this
  covers the triangular matrices and the Jacobian of a coupling.
\<close>

lemma det_staircase:
  assumes "\<And>i. i < n \<Longrightarrow>
     (\<forall>j. i < j \<and> j < n \<longrightarrow> A i j = 0) \<or> (\<forall>j. i < j \<and> j < n \<longrightarrow> A j i = 0)"
  shows "det n A = (\<Prod>i<n. A i i)"
  using assms
proof (induction n arbitrary: A)
  case 0
  then show ?case by simp
next
  case (Suc n)
  have first: "(\<forall>j. 0 < j \<and> j \<le> n \<longrightarrow> A 0 j = 0) \<or> (\<forall>i. 0 < i \<and> i \<le> n \<longrightarrow> A i 0 = 0)"
    using Suc.prems [of 0] by (simp add: less_Suc_eq_le)
  have rest: "(\<forall>j. i < j \<and> j < n \<longrightarrow> minor 0 A i j = 0)
              \<or> (\<forall>j. i < j \<and> j < n \<longrightarrow> minor 0 A j i = 0)" if "i < n" for i
    using Suc.prems [of "Suc i"] that by (auto simp add: minor_def)
  have "det (Suc n) A = A 0 0 * det n (minor 0 A)"
    by (rule det_first [OF first])
  also have "det n (minor 0 A) = (\<Prod>i<n. minor 0 A i i)"
    by (rule Suc.IH) (rule rest)
  also have "A 0 0 * (\<Prod>i<n. minor 0 A i i) = (\<Prod>i<Suc n. A i i)"
    by (simp only: prod.lessThan_Suc_shift) (simp add: minor_def)
  finally show ?case .
qed

section \<open>The log-determinant of the affine coupling\<close>







lemma data_generate_mask:
  "data (generate_mask d) = map (\<lambda>i. if even i then 1 else 0) [0..<d]"
  by (rule nth_equalityI) (simp_all add: nth_generate_mask)













section \<open>Matrix products and inverses\<close>

lemma matmul_assoc: "matmul n (matmul n A B) C = matmul n A (matmul n B C)"
proof (intro ext)
  fix i j
  have "matmul n (matmul n A B) C i j = (\<Sum>k<n. \<Sum>m<n. A i m * B m k * C k j)"
    by (simp add: matmul_def sum_distrib_right)
  also have "\<dots> = (\<Sum>m<n. \<Sum>k<n. A i m * B m k * C k j)"
    by (rule sum.swap)
  also have "\<dots> = matmul n A (matmul n B C) i j"
    by (simp add: matmul_def sum_distrib_left mult.assoc)
  finally show "matmul n (matmul n A B) C i j = matmul n A (matmul n B C) i j" .
qed

lemma eq_upto_refl [simp]: "eq_upto n A A"
  by (simp add: eq_upto_def)

lemma eq_upto_sym: "eq_upto n A B \<Longrightarrow> eq_upto n B A"
  by (simp add: eq_upto_def)

lemma eq_upto_trans: "eq_upto n A B \<Longrightarrow> eq_upto n B C \<Longrightarrow> eq_upto n A C"
  by (simp add: eq_upto_def)

lemma matmul_cong_left: "eq_upto n A A' \<Longrightarrow> eq_upto n (matmul n A B) (matmul n A' B)"
  by (simp add: eq_upto_def matmul_def)

lemma matmul_cong_right: "eq_upto n B B' \<Longrightarrow> eq_upto n (matmul n A B) (matmul n A B')"
  by (simp add: eq_upto_def matmul_def)

lemma sum_delta_right:
  fixes f :: "nat \<Rightarrow> real"
  assumes "j < n"
  shows "(\<Sum>k<n. f k * (if k = j then 1 else 0)) = f j"
proof -
  have "(\<Sum>k<n. f k * (if k = j then 1 else 0)) = (\<Sum>k<n. if k = j then f k else 0)"
    by (rule sum.cong) simp_all
  then show ?thesis
    using assms by (simp add: sum.delta)
qed

lemma sum_delta_left:
  fixes f :: "nat \<Rightarrow> real"
  assumes "j < n"
  shows "(\<Sum>k<n. (if j = k then 1 else 0) * f k) = f j"
proof -
  have "(\<Sum>k<n. (if j = k then 1 else 0) * f k) = (\<Sum>k<n. if k = j then f k else 0)"
    by (rule sum.cong) auto
  then show ?thesis
    using assms by (simp add: sum.delta)
qed

lemma matmul_one_right: "eq_upto n (matmul n A mat_one) A"
  by (simp add: eq_upto_def matmul_def mat_one_def sum_delta_right)

lemma matmul_one_left: "eq_upto n (matmul n mat_one A) A"
  by (simp add: eq_upto_def matmul_def mat_one_def sum_delta_left)

lemma is_inverse_iff:
  "is_inverse n A V \<longleftrightarrow> eq_upto n (matmul n A V) mat_one \<and> eq_upto n (matmul n V A) mat_one"
  by (auto simp add: is_inverse_def eq_upto_def)

lemma lower_right_inverse:
  "lower_tri n T \<Longrightarrow> (\<forall>i<n. T i i \<noteq> 0) \<Longrightarrow>
   \<exists>V. lower_tri n V \<and> (\<forall>i<n. V i i \<noteq> 0) \<and> eq_upto n (matmul n T V) mat_one"
proof (induction n)
  case 0
  then show ?case by (simp add: lower_tri_def eq_upto_def)
next
  case (Suc n)
  have "lower_tri n T" and "\<forall>i<n. T i i \<noteq> 0"
    using Suc.prems by (simp_all add: lower_tri_def)
  then obtain V' where lowV': "lower_tri n V'" and diagV': "\<forall>i<n. V' i i \<noteq> 0"
    and invV': "eq_upto n (matmul n T V') mat_one"
    using Suc.IH by blast
  have Tnn: "T n n \<noteq> 0"
    using Suc.prems(2) by simp
  have Tin: "T i n = 0" if "i < n" for i
    using Suc.prems(1) that by (simp add: lower_tri_def)
  define V where "V = (\<lambda>i j. if i < n \<and> j < n then V' i j
                               else if i = n \<and> j = n then 1 / T n n
                               else if i = n \<and> j < n then - (\<Sum>k<n. T n k * V' k j) / T n n
                               else 0)"
  have Vin: "V i n = 0" if "i < n" for i
    using that by (simp add: V_def)
  have Vold: "V i j = V' i j" if "i < n" and "j < n" for i j
    using that by (simp add: V_def)
  have Vnn: "V n n = 1 / T n n"
    by (simp add: V_def)
  have Vnj: "V n j = - (\<Sum>k<n. T n k * V' k j) / T n n" if "j < n" for j
    using that by (simp add: V_def)
  have prod: "matmul (Suc n) T V i j = (\<Sum>k<n. T i k * V k j) + T i n * V n j" for i j
    by (simp add: matmul_def)
  have old: "(\<Sum>k<n. T i k * V k j) = (\<Sum>k<n. T i k * V' k j)" if "j < n" for i j
    by (rule sum.cong) (simp_all add: Vold that)
  have last: "(\<Sum>k<n. T i k * V k n) = 0" for i
    by (rule sum.neutral) (simp add: Vin)
  have low: "lower_tri (Suc n) V"
    unfolding lower_tri_def
  proof (intro allI impI)
    fix i j assume "i < Suc n" and "j < Suc n" and "i < j"
    then show "V i j = 0"
      using lowV' by (cases "j = n") (auto simp add: V_def lower_tri_def)
  qed
  have dia: "\<forall>i<Suc n. V i i \<noteq> 0"
    using diagV' Tnn by (auto simp add: V_def less_Suc_eq)
  have inv: "eq_upto (Suc n) (matmul (Suc n) T V) mat_one"
    unfolding eq_upto_def
  proof (intro allI impI)
    fix i j assume i: "i < Suc n" and j: "j < Suc n"
    consider (a) "i < n" "j < n" | (b) "i < n" "j = n" | (c) "i = n" "j < n" | (d) "i = n" "j = n"
      using i j by (auto simp add: less_Suc_eq)
    then show "matmul (Suc n) T V i j = mat_one i j"
    proof cases
      case a
      have "matmul (Suc n) T V i j = matmul n T V' i j"
        using a by (simp add: prod old Tin) (simp add: matmul_def)
      then show ?thesis
        using invV' a by (simp add: eq_upto_def)
    next
      case b
      then show ?thesis
        by (simp add: prod last Tin mat_one_def)
    next
      case c
      then show ?thesis
        using Tnn by (simp add: prod old Vnj mat_one_def)
    next
      case d
      then show ?thesis
        using Tnn by (simp add: prod last Vnn mat_one_def)
    qed
  qed
  show ?case
    using low dia inv by blast
qed

lemma lower_inverse:
  assumes "lower_tri n T" and "\<forall>i<n. T i i \<noteq> 0"
  shows "\<exists>V. is_inverse n T V"
proof -
  obtain V where lowV: "lower_tri n V" and diagV: "\<forall>i<n. V i i \<noteq> 0"
    and TV: "eq_upto n (matmul n T V) mat_one"
    using lower_right_inverse [OF assms] by blast
  obtain V' where VV': "eq_upto n (matmul n V V') mat_one"
    using lower_right_inverse [OF lowV diagV] by blast
  have s1: "eq_upto n (matmul n V T) (matmul n (matmul n V T) mat_one)"
    by (rule eq_upto_sym [OF matmul_one_right])
  have s2: "eq_upto n (matmul n (matmul n V T) mat_one) (matmul n (matmul n V T) (matmul n V V'))"
    by (rule matmul_cong_right [OF eq_upto_sym [OF VV']])
  have s3: "matmul n (matmul n V T) (matmul n V V') = matmul n V (matmul n (matmul n T V) V')"
    by (simp add: matmul_assoc)
  have s4: "eq_upto n (matmul n V (matmul n (matmul n T V) V')) (matmul n V (matmul n mat_one V'))"
    by (rule matmul_cong_right [OF matmul_cong_left [OF TV]])
  have s5: "eq_upto n (matmul n V (matmul n mat_one V')) (matmul n V V')"
    by (rule matmul_cong_right [OF matmul_one_left])
  have "eq_upto n (matmul n V T) mat_one"
    by (rule eq_upto_trans [OF s1 eq_upto_trans [OF s2 [unfolded s3]
          eq_upto_trans [OF s4 eq_upto_trans [OF s5 VV']]]])
  then show ?thesis
    using TV is_inverse_iff by blast
qed

lemma matmul_transpose:
  "matmul n (transpose_mat A) (transpose_mat B) i j = matmul n B A j i"
  by (simp add: matmul_def transpose_mat_def mult.commute)

lemma transpose_inverse:
  assumes "is_inverse n (transpose_mat T) V"
  shows "is_inverse n T (transpose_mat V)"
proof -
  have a: "matmul n T (transpose_mat V) i j = matmul n V (transpose_mat T) j i" for i j
    by (simp add: matmul_def transpose_mat_def mult.commute)
  have b: "matmul n (transpose_mat V) T i j = matmul n (transpose_mat T) V j i" for i j
    by (simp add: matmul_def transpose_mat_def mult.commute)
  show ?thesis
    using assms unfolding is_inverse_def a b mat_one_def by (metis (full_types))
qed

lemma upper_inverse:
  assumes "\<forall>i<n. \<forall>j<n. j < i \<longrightarrow> T i j = 0" and "\<forall>i<n. T i i \<noteq> 0"
  shows "\<exists>V. is_inverse n T V"
proof -
  have "lower_tri n (transpose_mat T)" and "\<forall>i<n. transpose_mat T i i \<noteq> 0"
    using assms by (simp_all add: lower_tri_def transpose_mat_def)
  then obtain V where "is_inverse n (transpose_mat T) V"
    using lower_inverse by blast
  then show ?thesis
    using transpose_inverse by blast
qed

lemma inverse_product:
  assumes A: "is_inverse n A VA" and B: "is_inverse n B VB"
  shows "is_inverse n (matmul n A B) (matmul n VB VA)"
proof -
  have one: "eq_upto n (matmul n X (matmul n (matmul n Y Y') X')) mat_one"
    if "eq_upto n (matmul n Y Y') mat_one" and "eq_upto n (matmul n X X') mat_one" for X X' Y Y'
  proof -
    have "eq_upto n (matmul n X (matmul n (matmul n Y Y') X')) (matmul n X (matmul n mat_one X'))"
      by (rule matmul_cong_right [OF matmul_cong_left [OF that(1)]])
    moreover have "eq_upto n (matmul n X (matmul n mat_one X')) (matmul n X X')"
      by (rule matmul_cong_right [OF matmul_one_left])
    ultimately show ?thesis
      using that(2) by (meson eq_upto_trans)
  qed
  have "matmul n (matmul n A B) (matmul n VB VA) = matmul n A (matmul n (matmul n B VB) VA)"
    and "matmul n (matmul n VB VA) (matmul n A B) = matmul n VB (matmul n (matmul n VA A) B)"
    by (simp_all add: matmul_assoc)
  moreover have "eq_upto n (matmul n A (matmul n (matmul n B VB) VA)) mat_one"
    using A B by (intro one) (simp_all add: is_inverse_iff)
  moreover have "eq_upto n (matmul n VB (matmul n (matmul n VA A) B)) mat_one"
    using A B by (intro one) (simp_all add: is_inverse_iff)
  ultimately show ?thesis
    by (simp add: is_inverse_iff)
qed

lemma perm_inverse:
  assumes "is_perm_matrix n P"
  shows "is_inverse n P (transpose_mat P)"
proof -
  obtain \<sigma> where bij: "bij_betw \<sigma> {..<n} {..<n}"
    and P: "\<And>i j. i < n \<Longrightarrow> j < n \<Longrightarrow> P i j = (if j = \<sigma> i then 1 else 0)"
    using assms by (auto simp add: is_perm_matrix_def perm_matrix_of_def)
  have inj: "\<sigma> i = \<sigma> j \<longleftrightarrow> i = j" if "i < n" and "j < n" for i j
    using bij that by (auto simp add: bij_betw_def inj_on_def)
  have rng: "\<sigma> i < n" if "i < n" for i
    using bij that by (auto simp add: bij_betw_def)
  have left: "matmul n P (transpose_mat P) i j = mat_one i j" if i: "i < n" and j: "j < n" for i j
  proof -
    have "matmul n P (transpose_mat P) i j
          = (\<Sum>k<n. (if k = \<sigma> j then 1 else 0) * (if k = \<sigma> i then 1 else 0))"
      unfolding matmul_def transpose_mat_def
      by (rule sum.cong) (simp_all add: P i j)
    also have "\<dots> = (if \<sigma> i = \<sigma> j then 1 else 0)"
      by (rule sum_delta_right [OF rng [OF i]])
    finally show ?thesis
      using inj [OF i j] by (simp add: mat_one_def)
  qed
  have right: "matmul n (transpose_mat P) P i j = mat_one i j" if i: "i < n" and j: "j < n" for i j
  proof -
    obtain k0 where k0: "k0 < n" and sk0: "\<sigma> k0 = i"
      using bij i by (metis bij_betw_def imageE lessThan_iff)
    have "matmul n (transpose_mat P) P i j
          = (\<Sum>k<n. (if j = \<sigma> k then 1 else 0) * (if k = k0 then 1 else 0))"
      unfolding matmul_def transpose_mat_def
    proof (rule sum.cong)
      fix k assume "k \<in> {..<n}"
      then have k: "k < n" by simp
      show "P k i * P k j = (if j = \<sigma> k then 1 else 0) * (if k = k0 then 1 else 0)"
        using inj [OF k k0] sk0 by (auto simp add: P k i j)
    qed simp
    also have "\<dots> = (if j = \<sigma> k0 then 1 else 0)"
      by (rule sum_delta_right [OF k0])
    finally show ?thesis
      using sk0 by (auto simp add: mat_one_def)
  qed
  show ?thesis
    using left right by (simp add: is_inverse_def)
qed

section \<open>The PLU matrix is invertible\<close>

lemma PLU_L_unit_lower:
  "PLU_L p i i = 1" "i < j \<Longrightarrow> PLU_L p i j = 0"
  by (simp_all add: PLU_L_def tril_strict_def mat_one_def Let_def)

lemma PLU_U_strict_upper: "j \<le> i \<Longrightarrow> PLU_U p i j = 0"
  by (simp add: PLU_U_def triu_strict_def)

lemma torch_exp_simps:
  "exp_range v \<Longrightarrow> torch_exp v = exp v"
  "v \<le> - 104 \<Longrightarrow> torch_exp v = 0"
  by (simp_all add: torch_exp_def exp_range_def)

lemma PLU_s_diag:
  "PLU_s p i i = (if positive_s p then torch_exp (plu_log_s p i) else plu_log_s p i)"
  "i \<noteq> j \<Longrightarrow> PLU_s p i j = 0"
  by (simp_all add: PLU_s_def diag_mat_def)

lemma PLU_s_in_range:
  assumes "positive_s p" and "PLU_in_range p" and "i < plu_dim p"
  shows "PLU_s p i i = exp (plu_log_s p i)"
  using assms by (simp add: PLU_s_diag PLU_in_range_def Let_def torch_exp_simps)

lemma PLU_W_inverse:
  assumes perm: "is_perm_matrix (plu_dim p) (plu_P p)"
    and nz: "\<forall>i<plu_dim p. PLU_s p i i \<noteq> 0"
  shows "\<exists>V. is_inverse (plu_dim p) (PLU_W p) V"
proof -
  let ?n = "plu_dim p"
  let ?U = "\<lambda>i j. PLU_U p i j + PLU_s p i j"
  have "lower_tri ?n (PLU_L p)" and "\<forall>i<?n. PLU_L p i i \<noteq> 0"
    by (simp_all add: lower_tri_def PLU_L_unit_lower)
  then obtain VL where VL: "is_inverse ?n (PLU_L p) VL"
    using lower_inverse by blast
  have "\<forall>i<?n. \<forall>j<?n. j < i \<longrightarrow> ?U i j = 0" and "\<forall>i<?n. ?U i i \<noteq> 0"
    using nz by (simp_all add: PLU_U_strict_upper PLU_s_diag(2))
  then obtain VU where VU: "is_inverse ?n ?U VU"
    using upper_inverse [of ?n ?U] by blast
  have "is_inverse ?n (matmul ?n (plu_P p) (PLU_L p)) (matmul ?n VL (transpose_mat (plu_P p)))"
    by (rule inverse_product [OF perm_inverse [OF perm] VL])
  from inverse_product [OF this VU] show ?thesis
    unfolding PLU_W_def by blast
qed


section \<open>Row operations on determinants\<close>

lemma minor_adj_below:
  assumes "i < k"
  shows "minor i (\<lambda>r. A (adj k r)) = (\<lambda>r. minor i A (adj (k - 1) r))"
  using assms by (auto simp add: minor_def adj_def fun_eq_iff)

lemma minor_adj_above:
  assumes "Suc k < i"
  shows "minor i (\<lambda>r. A (adj k r)) = (\<lambda>r. minor i A (adj k r))"
  using assms by (auto simp add: minor_def adj_def fun_eq_iff)

lemma minor_adj_first: "minor k (\<lambda>r. A (adj k r)) = minor (Suc k) A"
  by (auto simp add: minor_def adj_def fun_eq_iff dest: less_antisym)

lemma minor_adj_second: "minor (Suc k) (\<lambda>r. A (adj k r)) = minor k A"
  by (auto simp add: minor_def adj_def fun_eq_iff dest: less_antisym)

lemma det_adj:
  "Suc k \<le> n \<Longrightarrow> det (Suc n) (\<lambda>r. A (adj k r)) = - det (Suc n) A"
proof (induction n arbitrary: A k)
  case 0
  then show ?case by simp
next
  case (Suc n)
  let ?B = "\<lambda>r. A (adj k r)"
  let ?t = "\<lambda>M i. (- 1) ^ i * M i 0 * det (Suc n) (minor i M)"
  have tm: "?t ?B i = - ?t A (adj k i)" if "i \<le> Suc n" for i
  proof -
    consider (lt) "i < k" | (eq1) "i = k" | (eq2) "i = Suc k" | (gt) "Suc k < i"
      by linarith
    then show ?thesis
    proof cases
      case lt
      then have "Suc (k - 1) \<le> n"
        using Suc.prems by simp
      then have "det (Suc n) (\<lambda>r. minor i A (adj (k - 1) r)) = - det (Suc n) (minor i A)"
        by (rule Suc.IH)
      then have d: "det (Suc n) (minor i ?B) = - det (Suc n) (minor i A)"
        by (simp only: minor_adj_below [OF lt])
      have a: "adj k i = i"
        using lt by (simp add: adj_def)
      show ?thesis
        unfolding a d by simp
    next
      case eq1
      have a: "adj k k = Suc k"
        by (simp add: adj_def)
      show ?thesis
        unfolding eq1 a minor_adj_first by simp
    next
      case eq2
      have a: "adj k (Suc k) = k"
        by (simp add: adj_def)
      show ?thesis
        unfolding eq2 a minor_adj_second by simp
    next
      case gt
      then have "Suc k \<le> n"
        using that by simp
      then have "det (Suc n) (\<lambda>r. minor i A (adj k r)) = - det (Suc n) (minor i A)"
        by (rule Suc.IH)
      then have d: "det (Suc n) (minor i ?B) = - det (Suc n) (minor i A)"
        by (simp only: minor_adj_above [OF gt])
      have a: "adj k i = i"
        using gt by (simp add: adj_def)
      show ?thesis
        unfolding a d by simp
    qed
  qed
  have "det (Suc (Suc n)) ?B = (\<Sum>i\<le>Suc n. ?t ?B i)"
    by (rule det.simps(2))
  also have "\<dots> = (\<Sum>i\<le>Suc n. - ?t A (adj k i))"
    by (rule sum.cong) (simp_all only: tm atMost_iff)
  also have "\<dots> = - (\<Sum>i\<le>Suc n. ?t A (adj k i))"
    by (rule sum_negf)
  also have "(\<Sum>i\<le>Suc n. ?t A (adj k i)) = (\<Sum>i\<le>Suc n. ?t A i)"
    by (rule sum.reindex_bij_witness [of _ "adj k" "adj k"])
      (use Suc.prems in \<open>auto simp add: adj_def\<close>)
  also have "(\<Sum>i\<le>Suc n. ?t A i) = det (Suc (Suc n)) A"
    by (rule det.simps(2) [symmetric])
  finally show ?case .
qed

lemma tr_Suc_adj: "tr a (Suc a) = adj a"
  by (auto simp add: tr_def adj_def fun_eq_iff)

lemma tr_step:
  "a < b \<Longrightarrow> tr a (Suc b) = (\<lambda>r. adj b (tr a b (adj b r)))"
  by (auto simp add: tr_def adj_def fun_eq_iff)

lemma det_tr:
  "a + Suc d \<le> n \<Longrightarrow> det (Suc n) (\<lambda>r. A (tr a (a + Suc d) r)) = - det (Suc n) A"
proof (induction d arbitrary: A)
  case 0
  then show ?case
    using det_adj [of a n A] by (simp del: det.simps add: tr_Suc_adj)
next
  case (Suc d)
  let ?b = "a + Suc d"
  let ?B = "\<lambda>r. A (adj ?b r)"
  let ?C = "\<lambda>r. ?B (tr a ?b r)"
  have sb: "Suc ?b \<le> n" and ib: "a + Suc d \<le> n"
    using Suc.prems by simp_all
  have "(\<lambda>r. A (tr a (a + Suc (Suc d)) r)) = (\<lambda>r. ?C (adj ?b r))"
    using tr_step [of a ?b] by (simp add: fun_eq_iff)
  then have "det (Suc n) (\<lambda>r. A (tr a (a + Suc (Suc d)) r)) = det (Suc n) (\<lambda>r. ?C (adj ?b r))"
    by (simp only:)
  also have "\<dots> = - det (Suc n) ?C"
    by (rule det_adj [OF sb])
  also have "det (Suc n) ?C = - det (Suc n) ?B"
    by (rule Suc.IH [OF ib])
  also have "det (Suc n) ?B = - det (Suc n) A"
    by (rule det_adj [OF sb])
  finally show ?case by (simp del: det.simps)
qed

lemma det_equal_rows:
  assumes "a < b" and "b \<le> n" and "A a = A b"
  shows "det (Suc n) A = 0"
proof -
  obtain d where d: "b = a + Suc d"
    using assms(1) by (metis less_iff_Suc_add add_Suc_right)
  have "(\<lambda>r. A (tr a b r)) = A"
    using assms(3) by (auto simp add: tr_def fun_eq_iff)
  moreover have "det (Suc n) (\<lambda>r. A (tr a b r)) = - det (Suc n) A"
    using det_tr [of a d n A] assms(2) d by (simp del: det.simps)
  ultimately show ?thesis
    by (simp del: det.simps)
qed

lemma minor_upd_same: "minor r (A(r := w)) = minor r A"
  by (auto simp add: minor_def fun_eq_iff)

lemma minor_upd_other:
  "i \<noteq> r \<Longrightarrow>
   minor i (A(r := w)) = (minor i A)((if r < i then r else r - 1) := (\<lambda>c. w (Suc c)))"
  by (auto simp add: minor_def fun_eq_iff)

lemma det_row_linear:
  "r \<le> n \<Longrightarrow>
   det (Suc n) (A(r := (\<lambda>c. x * u c + y * v c)))
   = x * det (Suc n) (A(r := u)) + y * det (Suc n) (A(r := v))"
proof (induction n arbitrary: A r u v)
  case 0
  then show ?case by simp
next
  case (Suc n)
  let ?w = "\<lambda>c. x * u c + y * v c"
  let ?t = "\<lambda>M i. (- 1) ^ i * M i 0 * det (Suc n) (minor i M)"
  have tm: "?t (A(r := ?w)) i = x * ?t (A(r := u)) i + y * ?t (A(r := v)) i" if i: "i \<le> Suc n" for i
  proof (cases "i = r")
    case True
    show ?thesis
      unfolding True minor_upd_same by (simp del: det.simps add: algebra_simps)
  next
    case False
    let ?r = "if r < i then r else r - 1"
    have r: "?r \<le> n"
      using Suc.prems i False by auto
    have "det (Suc n) ((minor i A)(?r := (\<lambda>c. x * u (Suc c) + y * v (Suc c))))
          = x * det (Suc n) ((minor i A)(?r := (\<lambda>c. u (Suc c))))
            + y * det (Suc n) ((minor i A)(?r := (\<lambda>c. v (Suc c))))"
      by (rule Suc.IH [OF r])
    then show ?thesis
      unfolding minor_upd_other [OF False] using False
      by (simp del: det.simps add: algebra_simps)
  qed
  have "det (Suc (Suc n)) (A(r := ?w)) = (\<Sum>i\<le>Suc n. ?t (A(r := ?w)) i)"
    by (rule det.simps(2))
  also have "\<dots> = (\<Sum>i\<le>Suc n. x * ?t (A(r := u)) i + y * ?t (A(r := v)) i)"
    by (rule sum.cong) (simp_all only: tm atMost_iff)
  also have "\<dots> = x * (\<Sum>i\<le>Suc n. ?t (A(r := u)) i) + y * (\<Sum>i\<le>Suc n. ?t (A(r := v)) i)"
    by (simp only: sum.distrib sum_distrib_left)
  also have "\<dots> = x * det (Suc (Suc n)) (A(r := u)) + y * det (Suc (Suc n)) (A(r := v))"
    by (simp only: det.simps(2))
  finally show ?case .
qed

lemma det_row_add:
  assumes r: "r \<le> n" and s: "s \<le> n" and ne: "s \<noteq> r"
  shows "det (Suc n) (A(r := (\<lambda>c. A r c + y * A s c))) = det (Suc n) A"
proof -
  have eq: "det (Suc n) (A(r := A s)) = 0"
  proof (cases "r < s")
    case True
    then show ?thesis
      using s by (intro det_equal_rows [of r s]) simp_all
  next
    case False
    then have "s < r" using ne by simp
    then show ?thesis
      using r by (intro det_equal_rows [of s r]) simp_all
  qed
  have "det (Suc n) (A(r := (\<lambda>c. 1 * A r c + y * A s c)))
        = 1 * det (Suc n) (A(r := A r)) + y * det (Suc n) (A(r := A s))"
    by (rule det_row_linear [OF r])
  then show ?thesis
    by (simp del: det.simps add: eq)
qed

lemma det_row_add_sum:
  "r \<le> n \<Longrightarrow> m \<le> r \<Longrightarrow>
   det (Suc n) (A(r := (\<lambda>c. A r c + (\<Sum>k<m. a k * A k c)))) = det (Suc n) A"
proof (induction m)
  case 0
  then show ?case by (simp del: det.simps)
next
  case (Suc m)
  let ?A' = "A(r := (\<lambda>c. A r c + (\<Sum>k<m. a k * A k c)))"
  have m: "m \<le> n" "m \<noteq> r" "m \<le> r"
    using Suc.prems by simp_all
  have "A(r := (\<lambda>c. A r c + (\<Sum>k<Suc m. a k * A k c)))
        = ?A'(r := (\<lambda>c. ?A' r c + a m * ?A' m c))"
    using m(2) by (simp add: fun_eq_iff add.assoc)
  then have "det (Suc n) (A(r := (\<lambda>c. A r c + (\<Sum>k<Suc m. a k * A k c))))
             = det (Suc n) (?A'(r := (\<lambda>c. ?A' r c + a m * ?A' m c)))"
    by (simp only:)
  also have "\<dots> = det (Suc n) ?A'"
    by (rule det_row_add [OF Suc.prems(1) m(1,2)])
  also have "\<dots> = det (Suc n) A"
    by (rule Suc.IH [OF Suc.prems(1) m(3)])
  finally show ?case .
qed

lemma unit_lower_row:
  fixes L M :: mat
  assumes t: "t \<le> n" and unit: "L t t = 1" and low: "\<forall>k\<le>n. t < k \<longrightarrow> L t k = 0"
  shows "(\<Sum>k<Suc n. L t k * M k c) = M t c + (\<Sum>k<t. L t k * M k c)"
proof -
  have "(\<Sum>k<Suc n. L t k * M k c) = (\<Sum>k<Suc t. L t k * M k c)"
  proof (rule sum.mono_neutral_right)
    show "{..<Suc t} \<subseteq> {..<Suc n}"
      using t by auto
    show "\<forall>k\<in>{..<Suc n} - {..<Suc t}. L t k * M k c = 0"
      using low by auto
  qed simp
  then show ?thesis
    using unit by simp
qed

lemma det_unit_lower_mult:
  assumes unit: "\<forall>i\<le>n. L i i = 1" and low: "\<forall>i\<le>n. \<forall>k\<le>n. i < k \<longrightarrow> L i k = 0"
  shows "det (Suc n) (matmul (Suc n) L M) = det (Suc n) M"
proof -
  let ?N = "Suc n"
  let ?C = "\<lambda>t i. if t \<le> i then matmul ?N L M i else M i"
  have "det ?N (?C t) = det ?N M" if "t \<le> ?N" for t
    using that
  proof (induction t rule: inc_induct)
    case base
    show ?case
      by (rule det_cong) simp
  next
    case (step t)
    then have t: "t \<le> n" by simp
    have row: "matmul ?N L M t = (\<lambda>c. M t c + (\<Sum>k<t. L t k * M k c))"
      using unit_lower_row [OF t, of L M] unit low t by (simp add: matmul_def fun_eq_iff)
    have "?C t = (?C (Suc t))(t := (\<lambda>c. ?C (Suc t) t c + (\<Sum>k<t. L t k * ?C (Suc t) k c)))"
      by (auto simp add: fun_eq_iff row)
    then have "det ?N (?C t)
        = det ?N ((?C (Suc t))(t := (\<lambda>c. ?C (Suc t) t c + (\<Sum>k<t. L t k * ?C (Suc t) k c))))"
      by (simp only:)
    also have "\<dots> = det ?N (?C (Suc t))"
      by (rule det_row_add_sum [OF t order_refl])
    also have "\<dots> = det ?N M"
      by (rule step.IH)
    finally show ?case .
  qed
  from this [of 0] show ?thesis
    by (simp del: det.simps)
qed

lemma tr_involutive [simp]: "tr a b (tr a b i) = i"
  by (simp add: tr_def)

lemma tr_bij: "a \<le> n \<Longrightarrow> b \<le> n \<Longrightarrow> bij_betw (tr a b) {..n} {..n}"
  by (rule bij_betw_byWitness [of _ "tr a b"]) (auto simp add: tr_def)

lemma det_perm_rows:
  "m \<le> Suc n \<Longrightarrow> bij_betw \<sigma> {..n} {..n} \<Longrightarrow> (\<forall>i. m \<le> i \<and> i \<le> n \<longrightarrow> \<sigma> i = i) \<Longrightarrow>
   \<bar>det (Suc n) (\<lambda>r. A (\<sigma> r))\<bar> = \<bar>det (Suc n) A\<bar>"
proof (induction m arbitrary: A \<sigma>)
  case 0
  then have "det (Suc n) (\<lambda>r. A (\<sigma> r)) = det (Suc n) A"
    by (intro det_cong) simp
  then show ?case by (simp only:)
next
  case (Suc m)
  have m: "m \<le> n"
    using Suc.prems(1) by simp
  have inj: "inj_on \<sigma> {..n}" and img: "\<sigma> ` {..n} = {..n}"
    using Suc.prems(2) by (simp_all add: bij_betw_def)
  have vn: "\<sigma> m \<le> n"
    using img m by auto
  show ?case
  proof (cases "\<sigma> m = m")
    case True
    then have "\<forall>i. m \<le> i \<and> i \<le> n \<longrightarrow> \<sigma> i = i"
      using Suc.prems(3) by (metis Suc_leI le_neq_implies_less)
    then show ?thesis
      using Suc.IH [of \<sigma> A] Suc.prems(1,2) by simp
  next
    case False
    have vm: "\<sigma> m < m"
    proof (rule ccontr)
      assume "\<not> \<sigma> m < m"
      then have "Suc m \<le> \<sigma> m"
        using False by simp
      then have "\<sigma> (\<sigma> m) = \<sigma> m"
        using Suc.prems(3) vn by simp
      then have "\<sigma> m = m"
        using inj vn m by (auto simp add: inj_on_def)
      then show False using False by simp
    qed
    let ?\<tau> = "tr (\<sigma> m) m"
    let ?\<sigma>' = "\<lambda>i. ?\<tau> (\<sigma> i)"
    let ?A' = "\<lambda>q. A (?\<tau> q)"
    have "bij_betw (?\<tau> \<circ> \<sigma>) {..n} {..n}"
      by (rule bij_betw_trans [OF Suc.prems(2) tr_bij [OF vn m]])
    then have bij': "bij_betw ?\<sigma>' {..n} {..n}"
      by (simp add: comp_def)
    have fix': "\<forall>i. m \<le> i \<and> i \<le> n \<longrightarrow> ?\<sigma>' i = i"
    proof (intro allI impI)
      fix i assume i: "m \<le> i \<and> i \<le> n"
      show "?\<sigma>' i = i"
      proof (cases "i = m")
        case True
        then show ?thesis by (simp add: tr_def)
      next
        case False
        then have "\<sigma> i = i"
          using Suc.prems(3) i by simp
        then show ?thesis
          using vm i False by (simp add: tr_def)
      qed
    qed
    have "(\<lambda>r. A (\<sigma> r)) = (\<lambda>r. ?A' (?\<sigma>' r))"
      by simp
    then have "\<bar>det (Suc n) (\<lambda>r. A (\<sigma> r))\<bar> = \<bar>det (Suc n) (\<lambda>r. ?A' (?\<sigma>' r))\<bar>"
      by (simp only:)
    also have "\<dots> = \<bar>det (Suc n) ?A'\<bar>"
      using Suc.IH [of ?\<sigma>' ?A'] m bij' fix' by simp
    also have "\<dots> = \<bar>det (Suc n) A\<bar>"
    proof -
      obtain d where d: "m = \<sigma> m + Suc d"
        using vm by (metis less_iff_Suc_add add_Suc_right)
      have "det (Suc n) (\<lambda>r. A (tr (\<sigma> m) (\<sigma> m + Suc d) r)) = - det (Suc n) A"
        using m d by (intro det_tr) simp
      then show ?thesis
        using d by (simp del: det.simps)
    qed
    finally show ?thesis .
  qed
qed

lemma perm_matrix_rows:
  assumes P: "\<And>i j. i < n \<Longrightarrow> j < n \<Longrightarrow> P i j = (if j = \<sigma> i then 1 else 0)"
    and rng: "\<sigma> i < n" and i: "i < n"
  shows "matmul n P X i j = X (\<sigma> i) j"
proof -
  have "matmul n P X i j = (\<Sum>k<n. (if \<sigma> i = k then 1 else 0) * X k j)"
    unfolding matmul_def by (rule sum.cong) (auto simp add: P i)
  also have "\<dots> = X (\<sigma> i) j"
    by (rule sum_delta_left [OF rng])
  finally show ?thesis .
qed

lemma PLU_W_abs_det:
  assumes perm: "is_perm_matrix (plu_dim p) (plu_P p)"
  shows "\<bar>det (plu_dim p) (PLU_W p)\<bar> = (\<Prod>i<plu_dim p. \<bar>PLU_s p i i\<bar>)"
proof (cases "plu_dim p")
  case 0
  then show ?thesis by simp
next
  case (Suc n)
  let ?N = "Suc n"
  let ?U = "\<lambda>i j. PLU_U p i j + PLU_s p i j"
  let ?X = "matmul ?N (PLU_L p) ?U"
  obtain \<sigma> where bij: "bij_betw \<sigma> {..<?N} {..<?N}"
    and P: "\<And>i j. i < ?N \<Longrightarrow> j < ?N \<Longrightarrow> plu_P p i j = (if j = \<sigma> i then 1 else 0)"
    using perm Suc by (auto simp add: is_perm_matrix_def perm_matrix_of_def)
  have bij': "bij_betw \<sigma> {..n} {..n}"
    using bij by (simp add: lessThan_Suc_atMost)
  have rng: "\<sigma> i < ?N" if "i < ?N" for i
    using bij that by (auto simp add: bij_betw_def)
  have W: "PLU_W p = matmul ?N (plu_P p) ?X"
    by (simp add: PLU_W_def Suc matmul_assoc)
  have "det ?N (PLU_W p) = det ?N (\<lambda>r. ?X (\<sigma> r))"
    unfolding W by (rule det_cong) (rule perm_matrix_rows [OF P rng])
  then have "\<bar>det ?N (PLU_W p)\<bar> = \<bar>det ?N (\<lambda>r. ?X (\<sigma> r))\<bar>"
    by (simp only:)
  also have "\<dots> = \<bar>det ?N ?X\<bar>"
    by (rule det_perm_rows [OF order_refl bij']) simp
  also have "det ?N ?X = det ?N ?U"
    by (rule det_unit_lower_mult) (simp_all add: PLU_L_unit_lower)
  also have "det ?N ?U = (\<Prod>i<?N. ?U i i)"
    by (rule det_staircase) (simp add: PLU_U_strict_upper PLU_s_diag(2))
  also have "\<dots> = (\<Prod>i<?N. PLU_s p i i)"
    by (simp only: PLU_U_strict_upper [OF order_refl] add_0)
  finally show ?thesis
    by (simp only: Suc abs_prod)
qed

section \<open>The log-determinant of the PLU matrix\<close>

lemma is_perm_matrix_one: "is_perm_matrix n mat_one"
  unfolding is_perm_matrix_def
  by (rule exI [of _ "\<lambda>i. i"]) (auto simp add: perm_matrix_of_def mat_one_def bij_betw_def)

lemma det_1: "det 1 A = A 0 0"
  by simp

lemma PLU_W_dim1:
  "plu_dim p = 1 \<Longrightarrow> plu_P p = mat_one \<Longrightarrow> PLU_W p 0 0 = PLU_s p 0 0"
  by (simp add: PLU_W_def matmul_def mat_one_def PLU_L_unit_lower PLU_U_strict_upper)

text \<open>
  C3, as stated, fails without \<open>positive_s\<close>. With \<open>log_s = 0\<close> the matrix is singular,
  so its determinant has no logarithm, while \<open>logdet\<close> is the finite number \<open>log eps\<close>; and
  with \<open>log_s = eps = 1e-8\<close> the value of \<open>logdet\<close> exceeds \<open>log |det W|\<close> by \<open>log 2\<close>.
\<close>

theorem PLU_logdet_eps_counterexample:
  "det 1 (PLU_W \<lparr>plu_dim = 1, positive_s = False, plu_eps = 1 / 10 ^ 8, plu_P = mat_one,
                   plu_L_raw = mat_one, plu_U_raw = (\<lambda>i j. 0), plu_log_s = (\<lambda>i. 0)\<rparr>) = 0
   \<and> PLU_logdet \<lparr>plu_dim = 1, positive_s = False, plu_eps = 1 / 10 ^ 8, plu_P = mat_one,
                   plu_L_raw = mat_one, plu_U_raw = (\<lambda>i j. 0), plu_log_s = (\<lambda>i. 0)\<rparr>
       = ln (1 / 10 ^ 8)
   \<and> PLU_logdet \<lparr>plu_dim = 1, positive_s = False, plu_eps = 1 / 10 ^ 8, plu_P = mat_one,
                   plu_L_raw = mat_one, plu_U_raw = (\<lambda>i j. 0), plu_log_s = (\<lambda>i. 1 / 10 ^ 8)\<rparr>
       = ln \<bar>det 1 (PLU_W \<lparr>plu_dim = 1, positive_s = False, plu_eps = 1 / 10 ^ 8, plu_P = mat_one,
                   plu_L_raw = mat_one, plu_U_raw = (\<lambda>i j. 0), plu_log_s = (\<lambda>i. 1 / 10 ^ 8)\<rparr>)\<bar>
         + ln 2"
proof -
  have "ln (2 / 10 ^ 8) = ln (1 / 10 ^ 8) + ln (2::real)"
    using ln_mult [of "1 / 10 ^ 8" "2::real"] by simp
  then show ?thesis
    by (simp add: det_1 PLU_W_dim1 PLU_s_diag PLU_logdet_def)
qed

text \<open>
  C3, amended. Let \<open>P\<close> be a permutation matrix and let the parameters be in the range of
  the floating-point numbers: with \<open>positive_s\<close> every \<open>log_s\<close> is between \<open>-87\<close> and
  \<open>88\<close>, without it \<open>eps\<close> is positive, and the sums of the matrix products and of
  \<open>logdet\<close> are bounded. In exact arithmetic, \<open>logdet\<close> returns the sum of \<open>log_s\<close> when
  \<open>positive_s\<close> is set and the sum of \<open>log (|log_s| + eps)\<close> otherwise. With \<open>positive_s\<close>
  the determinant of \<open>W\<close> is not zero and \<open>logdet\<close> is exactly \<open>log |det W|\<close>. Without it,
  \<open>|det W|\<close> is the product of the \<open>|log_s i|\<close>, while \<open>exp logdet\<close> is the product of the
  \<open>|log_s i| + eps\<close>.
\<close>

theorem PLU_logdet_abs_det:
  assumes "is_perm_matrix (plu_dim p) (plu_P p)" and "PLU_in_range p" and "logdet_in_range p"
  shows "PLU_logdet p = (if positive_s p then (\<Sum>i<plu_dim p. plu_log_s p i)
                         else (\<Sum>i<plu_dim p. ln (\<bar>plu_log_s p i\<bar> + plu_eps p)))
         \<and> (positive_s p \<longrightarrow>
               0 < \<bar>det (plu_dim p) (PLU_W p)\<bar>
               \<and> PLU_logdet p = ln \<bar>det (plu_dim p) (PLU_W p)\<bar>)
         \<and> (\<not> positive_s p \<longrightarrow>
               \<bar>det (plu_dim p) (PLU_W p)\<bar> = (\<Prod>i<plu_dim p. \<bar>plu_log_s p i\<bar>)
               \<and> exp (PLU_logdet p) = (\<Prod>i<plu_dim p. \<bar>plu_log_s p i\<bar> + plu_eps p))"
proof (intro conjI impI)
  note det = PLU_W_abs_det [OF assms(1)]
  show "PLU_logdet p = (if positive_s p then (\<Sum>i<plu_dim p. plu_log_s p i)
                         else (\<Sum>i<plu_dim p. ln (\<bar>plu_log_s p i\<bar> + plu_eps p)))"
    by (simp add: PLU_logdet_def)
  {
    assume pos: "positive_s p"
    have "(\<Prod>i<plu_dim p. \<bar>PLU_s p i i\<bar>) = (\<Prod>i<plu_dim p. exp (plu_log_s p i))"
      by (rule prod.cong) (simp_all add: PLU_s_in_range [OF pos assms(2)])
    then have d: "\<bar>det (plu_dim p) (PLU_W p)\<bar> = exp (\<Sum>i<plu_dim p. plu_log_s p i)"
      by (simp add: det exp_sum)
    show "0 < \<bar>det (plu_dim p) (PLU_W p)\<bar>"
      by (simp only: d exp_gt_zero)
    show "PLU_logdet p = ln \<bar>det (plu_dim p) (PLU_W p)\<bar>"
      using pos by (simp only: d ln_exp) (simp add: PLU_logdet_def)
  }
  {
    assume neg: "\<not> positive_s p"
    show "\<bar>det (plu_dim p) (PLU_W p)\<bar> = (\<Prod>i<plu_dim p. \<bar>plu_log_s p i\<bar>)"
      using neg by (simp add: det PLU_s_diag)
    have eps: "0 < plu_eps p"
      using assms(3) neg by (simp add: logdet_in_range_def)
    have "exp (\<Sum>i<plu_dim p. ln (\<bar>plu_log_s p i\<bar> + plu_eps p))
          = (\<Prod>i<plu_dim p. exp (ln (\<bar>plu_log_s p i\<bar> + plu_eps p)))"
      by (simp add: exp_sum)
    also have "\<dots> = (\<Prod>i<plu_dim p. \<bar>plu_log_s p i\<bar> + plu_eps p)"
    proof (rule prod.cong)
      fix i
      have "0 < \<bar>plu_log_s p i\<bar> + plu_eps p"
        using eps by (simp add: add_nonneg_pos)
      then show "exp (ln (\<bar>plu_log_s p i\<bar> + plu_eps p)) = \<bar>plu_log_s p i\<bar> + plu_eps p"
        by simp
    qed simp
    finally show "exp (PLU_logdet p) = (\<Prod>i<plu_dim p. \<bar>plu_log_s p i\<bar> + plu_eps p)"
      using neg by (simp add: PLU_logdet_def)
  }
qed

lemma PLU_example_in_range:
  "PLU_in_range \<lparr>plu_dim = 2, positive_s = True, plu_eps = 1 / 10 ^ 8, plu_P = mat_one,
                  plu_L_raw = (\<lambda>i j. 3), plu_U_raw = (\<lambda>i j. 5), plu_log_s = (\<lambda>i. ln 2)\<rparr>"
  by (simp add: PLU_in_range_def Let_def all_less_2 sum_less_2 exp_range_def ln_2_range
      matmul_def mat_one_def PLU_L_def PLU_U_def PLU_s_def tril_strict_def triu_strict_def
      diag_mat_def torch_exp_def f32_max_def)

lemma PLU_example_in_range_raw:
  "PLU_in_range \<lparr>plu_dim = 2, positive_s = False, plu_eps = 1 / 10 ^ 8, plu_P = mat_one,
                  plu_L_raw = (\<lambda>i j. 3), plu_U_raw = (\<lambda>i j. 5), plu_log_s = (\<lambda>i. 3)\<rparr>"
  by (simp add: PLU_in_range_def Let_def all_less_2 sum_less_2
      matmul_def mat_one_def PLU_L_def PLU_U_def PLU_s_def tril_strict_def triu_strict_def
      diag_mat_def f32_max_def)

lemma logdet_example_in_range_raw:
  "logdet_in_range \<lparr>plu_dim = 2, positive_s = False, plu_eps = 1 / 10 ^ 8, plu_P = mat_one,
                  plu_L_raw = (\<lambda>i j. 3), plu_U_raw = (\<lambda>i j. 5), plu_log_s = (\<lambda>i. 3)\<rparr>"
proof -
  let ?v = "\<bar>3\<bar> + 1 / 10 ^ 8 :: real"
  have "0 \<le> ln ?v"
    by simp
  moreover have "ln ?v \<le> ?v - 1"
    by (rule ln_le_minus_one) simp
  ultimately have a: "\<bar>ln ?v\<bar> \<le> 3"
    by simp
  have b: "(3::real) + 3 \<le> f32_max"
    by (simp add: f32_max_def)
  have e2: "?v \<le> f32_max"
    by (simp add: f32_max_def)
  from a b have e3: "\<bar>ln ?v\<bar> + \<bar>ln ?v\<bar> \<le> f32_max"
    by linarith
  show ?thesis
    using e2 e3 by (simp add: logdet_in_range_def sum_less_2)
qed

lemma prod_less_2: "(\<Prod>k<2. f k) = f (0::nat) * (f (Suc 0) :: real)"
  by (simp add: numeral_2_eq_2)

theorem PLU_logdet_abs_det_witness:
  "is_perm_matrix 2 mat_one
   \<and> PLU_in_range \<lparr>plu_dim = 2, positive_s = True, plu_eps = 1 / 10 ^ 8, plu_P = mat_one,
                     plu_L_raw = (\<lambda>i j. 3), plu_U_raw = (\<lambda>i j. 5), plu_log_s = (\<lambda>i. ln 2)\<rparr>
   \<and> logdet_in_range \<lparr>plu_dim = 2, positive_s = True, plu_eps = 1 / 10 ^ 8, plu_P = mat_one,
                     plu_L_raw = (\<lambda>i j. 3), plu_U_raw = (\<lambda>i j. 5), plu_log_s = (\<lambda>i. ln 2)\<rparr>
   \<and> PLU_logdet \<lparr>plu_dim = 2, positive_s = True, plu_eps = 1 / 10 ^ 8, plu_P = mat_one,
                   plu_L_raw = (\<lambda>i j. 3), plu_U_raw = (\<lambda>i j. 5), plu_log_s = (\<lambda>i. ln 2)\<rparr>
       = ln \<bar>det 2 (PLU_W \<lparr>plu_dim = 2, positive_s = True, plu_eps = 1 / 10 ^ 8, plu_P = mat_one,
                   plu_L_raw = (\<lambda>i j. 3), plu_U_raw = (\<lambda>i j. 5), plu_log_s = (\<lambda>i. ln 2)\<rparr>)\<bar>
   \<and> PLU_in_range \<lparr>plu_dim = 2, positive_s = False, plu_eps = 1 / 10 ^ 8, plu_P = mat_one,
                     plu_L_raw = (\<lambda>i j. 3), plu_U_raw = (\<lambda>i j. 5), plu_log_s = (\<lambda>i. 3)\<rparr>
   \<and> logdet_in_range \<lparr>plu_dim = 2, positive_s = False, plu_eps = 1 / 10 ^ 8, plu_P = mat_one,
                     plu_L_raw = (\<lambda>i j. 3), plu_U_raw = (\<lambda>i j. 5), plu_log_s = (\<lambda>i. 3)\<rparr>
   \<and> \<bar>det 2 (PLU_W \<lparr>plu_dim = 2, positive_s = False, plu_eps = 1 / 10 ^ 8, plu_P = mat_one,
                   plu_L_raw = (\<lambda>i j. 3), plu_U_raw = (\<lambda>i j. 5), plu_log_s = (\<lambda>i. 3)\<rparr>)\<bar>
       = 3 * 3
   \<and> exp (PLU_logdet \<lparr>plu_dim = 2, positive_s = False, plu_eps = 1 / 10 ^ 8, plu_P = mat_one,
                   plu_L_raw = (\<lambda>i j. 3), plu_U_raw = (\<lambda>i j. 5), plu_log_s = (\<lambda>i. 3)\<rparr>)
       = (3 + 1 / 10 ^ 8) * (3 + 1 / 10 ^ 8)"
proof -
  define p where "p = \<lparr>plu_dim = 2, positive_s = True, plu_eps = 1 / 10 ^ 8, plu_P = mat_one,
             plu_L_raw = (\<lambda>i j. 3), plu_U_raw = (\<lambda>i j. 5), plu_log_s = (\<lambda>i. ln 2)\<rparr>"
  define q where "q = \<lparr>plu_dim = 2, positive_s = False, plu_eps = 1 / 10 ^ 8, plu_P = mat_one,
             plu_L_raw = (\<lambda>i j. 3), plu_U_raw = (\<lambda>i j. 5), plu_log_s = (\<lambda>i. 3)\<rparr>"
  have pf: "plu_dim p = 2" "plu_P p = mat_one" "positive_s p" "plu_log_s p = (\<lambda>i. ln 2)"
    by (simp_all add: p_def)
  have qf: "plu_dim q = 2" "plu_P q = mat_one" "\<not> positive_s q" "plu_log_s q = (\<lambda>i. 3)"
      "plu_eps q = 1 / 10 ^ 8"
    by (simp_all add: q_def)
  have h1: "is_perm_matrix 2 mat_one"
    by (rule is_perm_matrix_one)
  have h2: "PLU_in_range p"
    unfolding p_def by (rule PLU_example_in_range)
  have h3: "logdet_in_range p"
    using ln_2_less_1 by (simp add: logdet_in_range_def pf sum_less_2 f32_max_def)
  have g2: "PLU_in_range q"
    unfolding q_def by (rule PLU_example_in_range_raw)
  have g3: "logdet_in_range q"
    unfolding q_def by (rule logdet_example_in_range_raw)
  have hp: "is_perm_matrix (plu_dim p) (plu_P p)" and hq: "is_perm_matrix (plu_dim q) (plu_P q)"
    using h1 by (simp_all add: pf qf)
  from PLU_logdet_abs_det [OF hp h2 h3]
  have c1: "PLU_logdet p = ln \<bar>det 2 (PLU_W p)\<bar>"
    by (simp add: pf)
  note raw = PLU_logdet_abs_det [OF hq g2 g3, THEN conjunct2, THEN conjunct2, THEN mp, OF qf(3)]
  have ab: "\<bar>3 :: real\<bar> = 3"
    by simp
  have c2: "\<bar>det 2 (PLU_W q)\<bar> = 3 * 3"
    using raw [THEN conjunct1] by (simp only: qf prod_less_2 ab)
  have c3: "exp (PLU_logdet q) = (3 + 1 / 10 ^ 8) * (3 + 1 / 10 ^ 8)"
    using raw [THEN conjunct2] by (simp only: qf prod_less_2 ab)
  have "is_perm_matrix 2 mat_one \<and> PLU_in_range p \<and> logdet_in_range p
        \<and> PLU_logdet p = ln \<bar>det 2 (PLU_W p)\<bar>
        \<and> PLU_in_range q \<and> logdet_in_range q
        \<and> \<bar>det 2 (PLU_W q)\<bar> = 3 * 3
        \<and> exp (PLU_logdet q) = (3 + 1 / 10 ^ 8) * (3 + 1 / 10 ^ 8)"
    by (intro conjI h1 h2 h3 c1 g2 g3 c2 c3)
  then show ?thesis
    unfolding p_def q_def .
qed

section \<open>Invertibility of the PLU matrix\<close>

text \<open>
  C4, as stated, fails for \<open>positive_s\<close> when \<open>exp\<close> underflows: with \<open>log_s = -200\<close> the
  computed scale is exactly zero, so \<open>W()\<close> of dimension one is the zero matrix, its
  determinant is zero and \<open>forward\<close> sends the inputs \<open>1\<close> and \<open>2\<close> to the same output.
\<close>

theorem PLU_W_underflow_counterexample:
  "PLU_s \<lparr>plu_dim = 1, positive_s = True, plu_eps = 1 / 10 ^ 8, plu_P = mat_one,
          plu_L_raw = mat_one, plu_U_raw = (\<lambda>i j. 0), plu_log_s = (\<lambda>i. - 200)\<rparr> 0 0 = 0
   \<and> det 1 (PLU_W \<lparr>plu_dim = 1, positive_s = True, plu_eps = 1 / 10 ^ 8, plu_P = mat_one,
          plu_L_raw = mat_one, plu_U_raw = (\<lambda>i j. 0), plu_log_s = (\<lambda>i. - 200)\<rparr>) = 0
   \<and> IL_forward \<lparr>plu_dim = 1, positive_s = True, plu_eps = 1 / 10 ^ 8, plu_P = mat_one,
          plu_L_raw = mat_one, plu_U_raw = (\<lambda>i j. 0), plu_log_s = (\<lambda>i. - 200)\<rparr> (\<lambda>b i. 1)
     = IL_forward \<lparr>plu_dim = 1, positive_s = True, plu_eps = 1 / 10 ^ 8, plu_P = mat_one,
          plu_L_raw = mat_one, plu_U_raw = (\<lambda>i j. 0), plu_log_s = (\<lambda>i. - 200)\<rparr> (\<lambda>b i. 2)"
proof -
  let ?p = "\<lparr>plu_dim = 1, positive_s = True, plu_eps = 1 / 10 ^ 8, plu_P = mat_one,
             plu_L_raw = mat_one, plu_U_raw = (\<lambda>i j. 0), plu_log_s = (\<lambda>i. - 200)\<rparr>"
  have s: "PLU_s ?p 0 0 = 0"
    by (simp add: PLU_s_diag torch_exp_def)
  have d: "det 1 (PLU_W ?p) = 0"
    by (simp add: det_1 PLU_W_dim1 PLU_s_diag torch_exp_def)
  have f: "IL_forward ?p (\<lambda>b i. 1) = IL_forward ?p (\<lambda>b i. 2)"
    by (simp add: IL_forward_def F_linear_def PLU_W_def matmul_def PLU_U_def PLU_s_def
        triu_strict_def diag_mat_def torch_exp_def fun_eq_iff)
  show ?thesis
    by (intro conjI s d f)
qed

text \<open>
  C4, amended. For all values of the trainable parameters, \<open>L()\<close> has a unit diagonal and
  is zero above it, and \<open>U()\<close> is zero on and below the diagonal. With \<open>positive_s\<close> the
  diagonal scale is \<open>exp log_s\<close>, positive in every entry whose \<open>log_s\<close> is between \<open>-87\<close>
  and \<open>88\<close>, where \<open>exp\<close> neither underflows nor overflows. Hence, in exact arithmetic,
  for a permutation matrix \<open>P\<close>, with \<open>positive_s\<close> and for parameters in the range of the
  floating-point numbers, the determinant of \<open>W()\<close> is not zero and \<open>W()\<close> has a two-sided
  inverse.
\<close>

theorem PLU_W_invertible:
  "(\<forall>i. PLU_L p i i = 1) \<and> (\<forall>i j. i < j \<longrightarrow> PLU_L p i j = 0)
   \<and> (\<forall>i j. j \<le> i \<longrightarrow> PLU_U p i j = 0)
   \<and> (positive_s p \<longrightarrow>
        (\<forall>i. exp_range (plu_log_s p i) \<longrightarrow>
             PLU_s p i i = exp (plu_log_s p i) \<and> 0 < PLU_s p i i))
   \<and> (positive_s p \<and> is_perm_matrix (plu_dim p) (plu_P p) \<and> PLU_in_range p \<longrightarrow>
        det (plu_dim p) (PLU_W p) \<noteq> 0 \<and> (\<exists>V. is_inverse (plu_dim p) (PLU_W p) V))"
proof (intro conjI impI allI)
  show "PLU_L p i i = 1" for i
    by (rule PLU_L_unit_lower(1))
  show "PLU_L p i j = 0" if "i < j" for i j
    using that by (rule PLU_L_unit_lower(2))
  show "PLU_U p i j = 0" if "j \<le> i" for i j
    using that by (rule PLU_U_strict_upper)
  show "PLU_s p i i = exp (plu_log_s p i)" if "positive_s p" and "exp_range (plu_log_s p i)" for i
    using that by (simp add: PLU_s_diag torch_exp_simps)
  show "0 < PLU_s p i i" if "positive_s p" and "exp_range (plu_log_s p i)" for i
    using that by (simp add: PLU_s_diag torch_exp_simps)
  assume h: "positive_s p \<and> is_perm_matrix (plu_dim p) (plu_P p) \<and> PLU_in_range p"
  then have nz: "\<forall>i<plu_dim p. PLU_s p i i \<noteq> 0"
    by (simp add: PLU_s_in_range)
  have "\<bar>det (plu_dim p) (PLU_W p)\<bar> = (\<Prod>i<plu_dim p. \<bar>PLU_s p i i\<bar>)"
    using h by (intro PLU_W_abs_det) simp
  also have "\<dots> \<noteq> 0"
    using nz by simp
  finally show "det (plu_dim p) (PLU_W p) \<noteq> 0"
    by simp
  show "\<exists>V. is_inverse (plu_dim p) (PLU_W p) V"
    using h nz by (intro PLU_W_inverse) simp_all
qed

theorem PLU_W_invertible_witness:
  "positive_s \<lparr>plu_dim = 2, positive_s = True, plu_eps = 1 / 10 ^ 8, plu_P = mat_one,
               plu_L_raw = (\<lambda>i j. 3), plu_U_raw = (\<lambda>i j. 5), plu_log_s = (\<lambda>i. ln 2)\<rparr>
   \<and> is_perm_matrix 2 mat_one
   \<and> PLU_in_range \<lparr>plu_dim = 2, positive_s = True, plu_eps = 1 / 10 ^ 8, plu_P = mat_one,
               plu_L_raw = (\<lambda>i j. 3), plu_U_raw = (\<lambda>i j. 5), plu_log_s = (\<lambda>i. ln 2)\<rparr>
   \<and> det 2 (PLU_W \<lparr>plu_dim = 2, positive_s = True, plu_eps = 1 / 10 ^ 8, plu_P = mat_one,
               plu_L_raw = (\<lambda>i j. 3), plu_U_raw = (\<lambda>i j. 5), plu_log_s = (\<lambda>i. ln 2)\<rparr>) \<noteq> 0
   \<and> (\<exists>V. is_inverse 2 (PLU_W \<lparr>plu_dim = 2, positive_s = True, plu_eps = 1 / 10 ^ 8,
               plu_P = mat_one, plu_L_raw = (\<lambda>i j. 3), plu_U_raw = (\<lambda>i j. 5),
               plu_log_s = (\<lambda>i. ln 2)\<rparr>) V)"
proof -
  let ?p = "\<lparr>plu_dim = 2, positive_s = True, plu_eps = 1 / 10 ^ 8, plu_P = mat_one,
             plu_L_raw = (\<lambda>i j. 3), plu_U_raw = (\<lambda>i j. 5), plu_log_s = (\<lambda>i. ln 2)\<rparr>"
  have h: "positive_s ?p \<and> is_perm_matrix (plu_dim ?p) (plu_P ?p) \<and> PLU_in_range ?p"
    using PLU_example_in_range by (simp add: is_perm_matrix_one)
  from PLU_W_invertible [of ?p] h
  have "det (plu_dim ?p) (PLU_W ?p) \<noteq> 0 \<and> (\<exists>V. is_inverse (plu_dim ?p) (PLU_W ?p) V)"
    by blast
  then show ?thesis
    using h by simp
qed

section \<open>Forward then inverse\<close>
















end
